theory Spec2Isabelle
  imports Main "HOL-Library.Word" "HOL-Library.Multiset"
begin

unbundle bit_operations_syntax

chapter \<open>libane: buffer objects, channel sets, model loading and tiling\<close>

text \<open>
  A shallow embedding of \<^verbatim>\<open>src/libane/ane.c\<close>. Memory is modelled as lists of bytes,
  the kernel and the C library as oracles whose answers are fields of an explicit device or
  host state, and every device call is recorded in a trace. A result of type \<open>option\<close>
  is \<open>None\<close> where the C program has undefined behaviour (a copy outside a buffer, a copy
  through a null mapping, a division by zero).
\<close>

section \<open>Definitions\<close>

subsection \<open>Bytes and the memory primitives\<close>

type_synonym byte = "8 word"
type_synonym u32 = "32 word"
type_synonym u64 = "64 word"

text \<open>
  \<^verbatim>\<open>memcpy(dst + doff, src + soff, n)\<close> on two distinct buffers: the copy is defined only
  when both ranges lie inside their buffers.
\<close>

definition memcpy :: "byte list \<Rightarrow> nat \<Rightarrow> byte list \<Rightarrow> nat \<Rightarrow> nat \<Rightarrow> byte list option" where
  "memcpy dst doff src soff n =
     (if doff + n \<le> length dst \<and> soff + n \<le> length src
      then Some (take doff dst @ take n (drop soff src) @ drop (doff + n) dst)
      else None)"

text \<open>\<^verbatim>\<open>memset(dst, v, n)\<close>.\<close>

definition memset :: "byte list \<Rightarrow> byte \<Rightarrow> nat \<Rightarrow> byte list option" where
  "memset dst v n =
     (if n \<le> length dst then Some (replicate n v @ drop n dst) else None)"

subsection \<open>Counting loops over \<^verbatim>\<open>uint64_t\<close>\<close>

text \<open>
  \<^verbatim>\<open>for (uint64_t i = i0; i < n; i++) body\<close>, threading a state through a body that may be
  undefined. The counter is a 64-bit word; the loop terminates because \<open>i < n\<close> keeps
  \<open>i + 1\<close> from wrapping.
\<close>

function for_u64 :: "u64 \<Rightarrow> u64 \<Rightarrow> (u64 \<Rightarrow> 's \<Rightarrow> 's option) \<Rightarrow> 's \<Rightarrow> 's option" where
  "for_u64 i n body s =
     (if i < n then
        (case body i s of
           None \<Rightarrow> None
         | Some s' \<Rightarrow> for_u64 (i + 1) n body s')
      else Some s)"
  by pat_completeness auto
termination
proof (relation "measure (\<lambda>(i, n, body, s). unat n - unat i)")
  show "wf (measure (\<lambda>(i, n, body, s). unat n - unat i))" by simp
next
  fix i n :: u64 and body :: "u64 \<Rightarrow> 's \<Rightarrow> 's option" and s x2 :: 's
  assume "i < n"
  then have lt: "unat i < unat n" by (simp add: word_less_nat_alt)
  then have "unat i + 1 < 2 ^ 64"
    using unsigned_less [of n, where 'a = nat] by simp
  then have "unat (i + 1) = unat i + 1"
    by (simp add: unat_word_ariths)
  with lt show "((i + 1, n, body, x2), (i, n, body, s)) \<in> measure (\<lambda>(i, n, body, s). unat n - unat i)"
    by simp
qed

declare for_u64.simps [simp del]

subsection \<open>The tiling transform\<close>

text \<open>
  \<^verbatim>\<open>ane_tile(data, tile, N, C, H, W, P, R)\<close> copies \<open>W * sizeof(uint16_t)\<close> bytes for every
  \<open>(n, c, h)\<close> from the dense buffer to the tile buffer; all offsets are computed in
  \<^verbatim>\<open>uint64_t\<close> and wrap. The result is the tile buffer after the call. \<^verbatim>\<open>P / R\<close> with
  \<open>R = 0\<close> is undefined.
\<close>

definition ane_tile ::
  "byte list \<Rightarrow> byte list \<Rightarrow> u64 \<Rightarrow> u64 \<Rightarrow> u64 \<Rightarrow> u64 \<Rightarrow> u64 \<Rightarrow> u64 \<Rightarrow> byte list option" where
  "ane_tile data tile N C H W P R =
     (if R = 0 then None
      else
        let new_H = P div R;
            new_W = R div 2;
            stride = W * 2
        in for_u64 0 N (\<lambda>n.
             for_u64 0 C (\<lambda>c.
               for_u64 0 H (\<lambda>h tile.
                 let src = (n * (C * H * W) + c * (H * W) + h * W) * 2;
                     dst = (n * (C * new_H * new_W) + c * (new_H * new_W) + h * new_W) * 2
                 in memcpy tile (unat dst) data (unat src) (unat stride)))) tile)"

text \<open>
  \<^verbatim>\<open>ane_untile(data, tile, N, C, H, W, P, R)\<close> first clears \<open>N * C * H * W * 2\<close> bytes of
  the dense buffer, then copies the rows back. The result is the dense buffer after the call.
\<close>

definition ane_untile ::
  "byte list \<Rightarrow> byte list \<Rightarrow> u64 \<Rightarrow> u64 \<Rightarrow> u64 \<Rightarrow> u64 \<Rightarrow> u64 \<Rightarrow> u64 \<Rightarrow> byte list option" where
  "ane_untile data tile N C H W P R =
     (if R = 0 then None
      else
        let new_H = P div R;
            new_W = R div 2;
            stride = W * 2
        in case memset data 0 (unat (N * C * H * W * 2)) of
             None \<Rightarrow> None
           | Some data0 \<Rightarrow>
               for_u64 0 N (\<lambda>n.
                 for_u64 0 C (\<lambda>c.
                   for_u64 0 H (\<lambda>h data.
                     let src = (n * (C * new_H * new_W) + c * (new_H * new_W) + h * new_W) * 2;
                         dst = (n * (C * H * W) + c * (H * W) + h * W) * 2
                     in memcpy data (unat dst) tile (unat src) (unat stride)))) data0)"



subsection \<open>Constants and the model descriptor\<close>

text \<open>
  Modelled from the spec: \<^verbatim>\<open>ANE_TILE_COUNT\<close> is declared in \<^verbatim>\<open>ane.h\<close>, which is not among
  the sources; the spec gives the channel indices as 0..63.
\<close>

definition ANE_TILE_COUNT :: nat where
  "ANE_TILE_COUNT = 64"

text \<open>\<^verbatim>\<open>EINVAL\<close> of \<^verbatim>\<open>errno.h\<close> on Linux.\<close>

definition EINVAL :: int where
  "EINVAL = 22"

definition TILE_SHIFT :: nat where
  "TILE_SHIFT = 14"

definition TILE_SIZE :: u64 where
  "TILE_SIZE = 0x4000"

text \<open>
  Modelled from the spec: \<^verbatim>\<open>struct anec\<close>, \<^verbatim>\<open>struct ane_model\<close>, \<^verbatim>\<open>struct ane_bo\<close> and
  \<^verbatim>\<open>struct ane_nn\<close> are declared in \<^verbatim>\<open>ane.h\<close>, which is not among the sources. Only the
  fields that \<^verbatim>\<open>ane.c\<close> reads are kept. The counts are 32-bit (the return type of
  \<^verbatim>\<open>ane_src_count\<close>); tile sizes and \<open>td_size\<close> are taken as 32-bit values, which the
  macros widen to \<^verbatim>\<open>uint64_t\<close> before shifting or aligning. \<open>tiles\<close> is the array of
  \<open>ANE_TILE_COUNT\<close> entries.
\<close>

record anec =
  anec_size :: u64
  td_size :: u32
  src_count :: u32
  dst_count :: u32
  tiles :: "u32 list"

record ane_model =
  model_anec :: anec
  model_data :: "byte list"

record ane_bo =
  bo_map :: "byte list option"
  bo_size :: u64
  bo_handle :: u32
  bo_offset :: u64

record ane_nn =
  model :: ane_model
  chans :: "ane_bo list"
  btsp_chan :: ane_bo

subsection \<open>The device\<close>

text \<open>
  The kernel driver and \<^verbatim>\<open>mmap\<close> are outside the program. Their answers are oracles of
  the device state, indexed by the number of device calls made so far, and every call is
  appended to \<open>trace\<close>. A \<open>bo_ref\<close> names the \<^verbatim>\<open>struct ane_bo\<close> a call is made on
  (\<^verbatim>\<open>&nn->chans[bdx]\<close> or \<^verbatim>\<open>&nn->btsp_chan\<close>); it stands for the pointer.

  An event records one call: the allocation ioctl with the size asked for and the code,
  handle and offset it answered; the free ioctl with the handle passed; \<^verbatim>\<open>mmap\<close> with size,
  offset and whether it succeeded; \<^verbatim>\<open>munmap\<close> with the size; \<^verbatim>\<open>close\<close> with the descriptor.
  The argument structures of the ioctls are declared in \<^verbatim>\<open>drm_ane.h\<close>, which is not among
  the sources; handles are taken as 32-bit and sizes and offsets as 64-bit values.
\<close>

datatype bo_ref = Chan nat | Btsp

datatype event =
    Ev_bo_init bo_ref u64 int u32 u64
  | Ev_bo_free bo_ref u32
  | Ev_mmap bo_ref u64 u64 bool
  | Ev_munmap bo_ref u64
  | Ev_close int

record ane_device =
  fd :: int
  drm_bo_init :: "nat \<Rightarrow> u64 \<Rightarrow> int \<times> u32 \<times> u64"
  drm_bo_free :: "nat \<Rightarrow> u32 \<Rightarrow> int"
  sys_mmap :: "nat \<Rightarrow> u64 \<Rightarrow> u64 \<Rightarrow> (nat \<Rightarrow> byte) option"
  trace :: "event list"

definition emit :: "event \<Rightarrow> ane_device \<Rightarrow> ane_device" where
  "emit e ane = ane\<lparr>trace := trace ane @ [e]\<rparr>"

subsection \<open>Macros\<close>

text \<open>
  \<^verbatim>\<open>tile_shift\<close>, \<^verbatim>\<open>tile_align\<close>, \<^verbatim>\<open>to_anec\<close>, \<^verbatim>\<open>tile_size\<close>, \<^verbatim>\<open>src_bdx\<close> and \<^verbatim>\<open>dst_bdx\<close> as
  the macros write them. \<^verbatim>\<open>src_bdx\<close> adds an \<^verbatim>\<open>int\<close>, a \<^verbatim>\<open>uint32_t\<close> and an \<^verbatim>\<open>int\<close>: the sum is
  a \<^verbatim>\<open>uint32_t\<close> and wraps. \<^verbatim>\<open>dst_bdx\<close> is an \<^verbatim>\<open>int\<close>, given here by its 32 bits.
\<close>

definition tile_shift :: "u32 \<Rightarrow> u64" where
  "tile_shift x = push_bit TILE_SHIFT (ucast x)"

definition tile_align :: "u32 \<Rightarrow> u64" where
  "tile_align x = (ucast x + TILE_SIZE - 1) AND (- TILE_SIZE)"

definition to_anec :: "ane_nn \<Rightarrow> anec" where
  "to_anec nn = model_anec (model nn)"

definition tile_size :: "ane_nn \<Rightarrow> nat \<Rightarrow> u64" where
  "tile_size nn bdx = tile_shift (tiles (to_anec nn) ! bdx)"



subsection \<open>Bootstrap stamping\<close>

text \<open>The first four bytes of a buffer as a little-endian \<^verbatim>\<open>uint32_t\<close>, and back.\<close>

definition word_of_bytes :: "byte list \<Rightarrow> u32" where
  "word_of_bytes bs =
     ucast (bs ! 0) OR push_bit 8 (ucast (bs ! 1)) OR push_bit 16 (ucast (bs ! 2))
       OR push_bit 24 (ucast (bs ! 3))"

definition bytes_of_word :: "u32 \<Rightarrow> byte list" where
  "bytes_of_word w = [ucast w, ucast (drop_bit 8 w), ucast (drop_bit 16 w), ucast (drop_bit 24 w)]"

text \<open>
  \<^verbatim>\<open>set_nid(td, nid)\<close>; \<open>nid\<close> is an \<^verbatim>\<open>int\<close>, given here by its 32 bits. Reading the word
  from a buffer shorter than four bytes is undefined.
\<close>

definition set_nid :: "byte list \<Rightarrow> u32 \<Rightarrow> byte list option" where
  "set_nid td nid =
     (if length td < 4 then None
      else
        let hdr0 = word_of_bytes td;
            hdr0 = (hdr0 AND 0xf00ffff) OR (push_bit 16 (nid AND 0xff))
        in memcpy td 0 (bytes_of_word hdr0) 0 4)"

text \<open>
  \<^verbatim>\<open>set_btsp_and_command\<close>. \<^verbatim>\<open>ANE_FIFO_NID\<close> is declared in \<^verbatim>\<open>ane.h\<close>, which is not among
  the sources, so it is the parameter \<open>fifo_nid\<close>. A copy through a null mapping or
  outside a buffer is undefined.
\<close>

definition set_btsp_and_command :: "u32 \<Rightarrow> ane_nn \<Rightarrow> ane_nn option" where
  "set_btsp_and_command fifo_nid nn =
     (let anec = to_anec nn;
          data = model_data (model nn)
      in case bo_map (chans nn ! 0) of
           None \<Rightarrow> None
         | Some m0 \<Rightarrow>
             (case memcpy m0 0 data 0 (unat (anec_size anec)) of
                None \<Rightarrow> None
              | Some m0' \<Rightarrow>
                  (case bo_map (btsp_chan nn) of
                     None \<Rightarrow> None
                   | Some mb \<Rightarrow>
                       (case memcpy mb 0 data 0 (unat (td_size anec)) of
                          None \<Rightarrow> None
                        | Some mb' \<Rightarrow>
                            (case set_nid mb' fifo_nid of
                               None \<Rightarrow> None
                             | Some mb'' \<Rightarrow>
                                 Some (nn\<lparr>chans := (chans nn)[0 := (chans nn ! 0)\<lparr>bo_map := Some m0'\<rparr>],
                                          btsp_chan := (btsp_chan nn)\<lparr>bo_map := Some mb''\<rparr>\<rparr>))))))"

subsection \<open>Buffer objects\<close>

text \<open>
  \<^verbatim>\<open>bo_init\<close>, \<^verbatim>\<open>bo_free\<close>, \<^verbatim>\<open>bo_mmap\<close>, \<^verbatim>\<open>ane_bo_init\<close> and \<^verbatim>\<open>ane_bo_free\<close>. Each returns
  its code (where the C function has one), the device state after its calls and the
  buffer object as the call leaves it. A mapping that succeeds holds \<open>bo_size\<close> bytes of
  whatever the device put there.
\<close>

definition bo_init :: "ane_device \<Rightarrow> bo_ref \<Rightarrow> ane_bo \<Rightarrow> int \<times> ane_device \<times> ane_bo" where
  "bo_init ane r bo =
     (case drm_bo_init ane (length (trace ane)) (bo_size bo) of
        (err, h, off) \<Rightarrow>
          (err, emit (Ev_bo_init r (bo_size bo) err h off) ane,
           bo\<lparr>bo_handle := h, bo_offset := off\<rparr>))"

definition bo_free :: "ane_device \<Rightarrow> bo_ref \<Rightarrow> ane_bo \<Rightarrow> int \<times> ane_device" where
  "bo_free ane r bo =
     (drm_bo_free ane (length (trace ane)) (bo_handle bo),
      emit (Ev_bo_free r (bo_handle bo)) ane)"

definition bo_mmap :: "ane_device \<Rightarrow> bo_ref \<Rightarrow> ane_bo \<Rightarrow> int \<times> ane_device \<times> ane_bo" where
  "bo_mmap ane r bo =
     (case sys_mmap ane (length (trace ane)) (bo_size bo) (bo_offset bo) of
        None \<Rightarrow>
          (- EINVAL, emit (Ev_mmap r (bo_size bo) (bo_offset bo) False) ane,
           bo\<lparr>bo_map := None\<rparr>)
      | Some init \<Rightarrow>
          (0, emit (Ev_mmap r (bo_size bo) (bo_offset bo) True) ane,
           bo\<lparr>bo_map := Some (map init [0..<unat (bo_size bo)])\<rparr>))"

definition ane_bo_init :: "ane_device \<Rightarrow> bo_ref \<Rightarrow> ane_bo \<Rightarrow> int \<times> ane_device \<times> ane_bo" where
  "ane_bo_init ane r bo =
     (if bo_size bo = 0 then (- EINVAL, ane, bo)
      else
        case bo_init ane r bo of
          (err, ane1, bo1) \<Rightarrow>
            if err < 0 then (err, ane1, bo1\<lparr>bo_handle := 0, bo_offset := 0\<rparr>)
            else
              case bo_mmap ane1 r bo1 of
                (err, ane2, bo2) \<Rightarrow>
                  if err < 0 then
                    (case bo_free ane2 r bo2 of
                       (_, ane3) \<Rightarrow> (err, ane3, bo2\<lparr>bo_handle := 0, bo_offset := 0\<rparr>))
                  else (0, ane2, bo2))"

definition ane_bo_free :: "ane_device \<Rightarrow> bo_ref \<Rightarrow> ane_bo \<Rightarrow> ane_device \<times> ane_bo" where
  "ane_bo_free ane r bo =
     (case bo_map bo of
        Some m \<Rightarrow>
          (case bo_free (emit (Ev_munmap r (bo_size bo)) ane) r bo of
             (_, ane') \<Rightarrow> (ane', bo\<lparr>bo_map := None\<rparr>))
      | None \<Rightarrow> (ane, bo\<lparr>bo_map := None\<rparr>))"

subsection \<open>Channel sets\<close>

text \<open>
  \<^verbatim>\<open>ane_chan_free\<close> and \<^verbatim>\<open>ane_chan_init\<close>; the two \<^verbatim>\<open>for\<close> loops over \<open>bdx\<close> are the
  recursive functions \<open>chan_free_loop\<close> and \<open>chan_init_loop\<close>, and \<^verbatim>\<open>goto error\<close> is the
  branch that calls \<open>ane_chan_free\<close>. \<open>ane_chan_init\<close> is \<open>None\<close> when
  \<open>set_btsp_and_command\<close> is undefined.
\<close>

function chan_free_loop :: "nat \<Rightarrow> ane_device \<Rightarrow> ane_nn \<Rightarrow> ane_device \<times> ane_nn" where
  "chan_free_loop bdx ane nn =
     (if bdx < ANE_TILE_COUNT then
        (case ane_bo_free ane (Chan bdx) (chans nn ! bdx) of
           (ane', bo') \<Rightarrow> chan_free_loop (Suc bdx) ane' (nn\<lparr>chans := (chans nn)[bdx := bo']\<rparr>))
      else (ane, nn))"
  by pat_completeness auto
termination
  by (relation "measure (\<lambda>(bdx, ane, nn). ANE_TILE_COUNT - bdx)") auto

definition ane_chan_free :: "ane_device \<Rightarrow> ane_nn \<Rightarrow> ane_device \<times> ane_nn" where
  "ane_chan_free ane nn =
     (case ane_bo_free ane Btsp (btsp_chan nn) of
        (ane', bo') \<Rightarrow> chan_free_loop 0 ane' (nn\<lparr>btsp_chan := bo'\<rparr>))"

function chan_init_loop :: "nat \<Rightarrow> ane_device \<Rightarrow> ane_nn \<Rightarrow> int \<times> ane_device \<times> ane_nn" where
  "chan_init_loop bdx ane nn =
     (if bdx < ANE_TILE_COUNT then
        (if tiles (to_anec nn) ! bdx \<noteq> 0 then
           (case ane_bo_init ane (Chan bdx) ((chans nn ! bdx)\<lparr>bo_size := tile_size nn bdx\<rparr>) of
              (err, ane', bo') \<Rightarrow>
                if err < 0 then (err, ane', nn\<lparr>chans := (chans nn)[bdx := bo']\<rparr>)
                else chan_init_loop (Suc bdx) ane' (nn\<lparr>chans := (chans nn)[bdx := bo']\<rparr>))
         else chan_init_loop (Suc bdx) ane nn)
      else (0, ane, nn))"
  by pat_completeness auto
termination
  by (relation "measure (\<lambda>(bdx, ane, nn). ANE_TILE_COUNT - bdx)") auto

definition ane_chan_init ::
  "u32 \<Rightarrow> ane_device \<Rightarrow> ane_nn \<Rightarrow> (int \<times> ane_device \<times> ane_nn) option" where
  "ane_chan_init fifo_nid ane nn =
     (case chan_init_loop 0 ane nn of
        (err, ane1, nn1) \<Rightarrow>
          if err < 0 then
            (case ane_chan_free ane1 nn1 of (ane2, nn2) \<Rightarrow> Some (err, ane2, nn2))
          else
            (case ane_bo_init ane1 Btsp ((btsp_chan nn1)\<lparr>bo_size := tile_align (td_size (to_anec nn1))\<rparr>) of
               (err, ane2, bo') \<Rightarrow>
                 if err < 0 then
                   (case ane_chan_free ane2 (nn1\<lparr>btsp_chan := bo'\<rparr>) of
                      (ane3, nn3) \<Rightarrow> Some (err, ane3, nn3))
                 else
                   (case set_btsp_and_command fifo_nid (nn1\<lparr>btsp_chan := bo'\<rparr>) of
                      None \<Rightarrow> None
                    | Some nn2 \<Rightarrow> Some (0, ane2, nn2))))"

text \<open>
  \<^verbatim>\<open>__ane_init_from_model\<close> starts from a zeroed \<^verbatim>\<open>struct ane_nn\<close> (\<^verbatim>\<open>ane_zmalloc\<close>). The
  outcome of \<^verbatim>\<open>ane_open\<close> (a file descriptor or a negative code) and of the allocation
  are parameters; a null result is \<open>None\<close> in the second component.
\<close>

definition bo_zero :: ane_bo where
  "bo_zero = \<lparr>bo_map = None, bo_size = 0, bo_handle = 0, bo_offset = 0\<rparr>"

definition nn_zero :: "ane_model \<Rightarrow> ane_nn" where
  "nn_zero m = \<lparr>model = m, chans = replicate ANE_TILE_COUNT bo_zero, btsp_chan = bo_zero\<rparr>"

definition ane_init_from_model ::
  "u32 \<Rightarrow> int \<Rightarrow> bool \<Rightarrow> ane_device \<Rightarrow> ane_model \<Rightarrow> (ane_device \<times> ane_nn option) option" where
  "ane_init_from_model fifo_nid open_res zmalloc_ok ane m =
     (if open_res < 0 then Some (ane, None)
      else if \<not> zmalloc_ok then Some (emit (Ev_close open_res) ane, None)
      else
        case ane_chan_init fifo_nid (ane\<lparr>fd := open_res\<rparr>) (nn_zero m) of
          None \<Rightarrow> None
        | Some (err, ane', nn') \<Rightarrow>
            if err < 0 then Some (emit (Ev_close open_res) ane', None)
            else Some (ane', Some nn'))"

subsection \<open>Channel access\<close>


subsection \<open>Reading a trace\<close>

text \<open>
  The buffers mapped and unmapped, the handles allocated and freed, and the allocate and
  map steps that failed, in the order of the calls.
\<close>

fun mapped_of :: "event \<Rightarrow> bo_ref list" where
  "mapped_of (Ev_mmap r sz off ok) = (if ok then [r] else [])"
| "mapped_of _ = []"

fun unmapped_of :: "event \<Rightarrow> bo_ref list" where
  "unmapped_of (Ev_munmap r sz) = [r]"
| "unmapped_of _ = []"

fun allocated_of :: "event \<Rightarrow> (bo_ref \<times> u32) list" where
  "allocated_of (Ev_bo_init r sz err h off) = (if err < 0 then [] else [(r, h)])"
| "allocated_of _ = []"

fun freed_of :: "event \<Rightarrow> (bo_ref \<times> u32) list" where
  "freed_of (Ev_bo_free r h) = [(r, h)]"
| "freed_of _ = []"

fun step_failed :: "event \<Rightarrow> bool" where
  "step_failed (Ev_bo_init r sz err h off) = (err < 0)"
| "step_failed (Ev_mmap r sz off ok) = (\<not> ok)"
| "step_failed _ = False"

definition failures :: "event list \<Rightarrow> event list" where
  "failures tr = filter step_failed tr"

definition acquired :: "event list \<Rightarrow> bo_ref list" where
  "acquired tr = concat (map mapped_of tr)"

definition released :: "event list \<Rightarrow> bo_ref list" where
  "released tr = concat (map unmapped_of tr)"

definition allocated :: "event list \<Rightarrow> (bo_ref \<times> u32) list" where
  "allocated tr = concat (map allocated_of tr)"

definition freed :: "event list \<Rightarrow> (bo_ref \<times> u32) list" where
  "freed tr = concat (map freed_of tr)"

text \<open>The channel indices in \<open>[lo, hi)\<close> that the descriptor marks present, and those mapped.\<close>

definition present :: "u32 list \<Rightarrow> nat \<Rightarrow> nat \<Rightarrow> nat list" where
  "present T lo hi = filter (\<lambda>i. T ! i \<noteq> 0) [lo..<hi]"

definition mapped_idx :: "ane_bo list \<Rightarrow> nat \<Rightarrow> nat \<Rightarrow> nat list" where
  "mapped_idx cs lo hi = filter (\<lambda>i. bo_map (cs ! i) \<noteq> None) [lo..<hi]"

text \<open>
  What the allocation loop of \<^verbatim>\<open>ane_chan_init\<close> has done when it leaves at index \<open>k\<close>
  (\<open>k = ANE_TILE_COUNT\<close> when every channel succeeded).
\<close>

definition chan_init_post ::
  "u32 list \<Rightarrow> nat \<Rightarrow> event list \<Rightarrow> ane_bo list \<Rightarrow> int \<Rightarrow> event list \<Rightarrow> ane_bo list \<Rightarrow> bool" where
  "chan_init_post T bdx tr cs err tr' cs' \<longleftrightarrow>
     length cs' = ANE_TILE_COUNT \<and>
     (\<forall>i<bdx. cs' ! i = cs ! i) \<and>
     (\<exists>new k. tr' = tr @ new \<and> bdx \<le> k \<and> k \<le> ANE_TILE_COUNT \<and>
        (err < 0 \<longrightarrow> k < ANE_TILE_COUNT \<and> T ! k \<noteq> 0) \<and>
        (\<not> err < 0 \<longrightarrow> err = 0 \<and> k = ANE_TILE_COUNT) \<and>
        (\<not> err < 0 \<longrightarrow> freed new = []) \<and>
        (\<not> err < 0 \<longrightarrow> failures new = []) \<and>
        acquired new = map Chan (present T bdx k) \<and> released new = [] \<and>
        mset (allocated new) =
          mset (freed new) + mset (map (\<lambda>i. (Chan i, bo_handle (cs' ! i))) (present T bdx k)) \<and>
        (\<forall>i. bdx \<le> i \<and> i < k \<and> T ! i \<noteq> 0 \<longrightarrow>
           bo_size (cs' ! i) = tile_shift (T ! i) \<and>
           (\<exists>m. bo_map (cs' ! i) = Some m \<and> length m = unat (tile_shift (T ! i)))) \<and>
        (\<forall>i. bdx \<le> i \<and> i < k \<and> T ! i = 0 \<longrightarrow> cs' ! i = cs ! i) \<and>
        (\<forall>i. k \<le> i \<and> i < ANE_TILE_COUNT \<longrightarrow> bo_map (cs' ! i) = None) \<and>
        (\<forall>i. k < i \<and> i < ANE_TILE_COUNT \<longrightarrow> cs' ! i = cs ! i))"

subsection \<open>Model loading\<close>

text \<open>
  The C library is outside the program. An open stream is the list of bytes it will
  deliver from its start (a file that is short, or fails part-way, delivers fewer bytes
  than asked for) and the set of offsets it can be positioned at (none for a pipe; for a
  regular file the offsets the file system accepts). The host state holds the outcomes
  of \<^verbatim>\<open>malloc\<close> and \<^verbatim>\<open>posix_memalign\<close> for each requested size (null, or a block with
  arbitrary content) and of the successive \<^verbatim>\<open>fopen\<close> calls.
\<close>

record stdio_file =
  content :: "byte list"
  seekable :: "nat \<Rightarrow> bool"

record host =
  malloc_res :: "nat \<Rightarrow> (nat \<Rightarrow> byte) option"
  memalign_res :: "nat \<Rightarrow> (nat \<Rightarrow> byte) option"
  fopen_res :: "nat \<Rightarrow> string \<Rightarrow> stdio_file option"
  n_fopen :: nat

text \<open>
  The layout of \<^verbatim>\<open>struct anec\<close> and \<^verbatim>\<open>struct ane_model\<close> is declared in \<^verbatim>\<open>ane.h\<close>, which is
  not among the sources: the two sizes and the decoding of the header bytes are parameters.
\<close>

record abi =
  sizeof_ane_model :: u64
  sizeof_anec :: u64
  anec_of_bytes :: "byte list \<Rightarrow> anec"

definition ANEC_SIZE :: u64 where
  "ANEC_SIZE = 0x1000"

text \<open>\<^verbatim>\<open>ane_zmalloc\<close> and \<^verbatim>\<open>ane_zmemalign\<close>: allocate, then clear; \<open>None\<close> is the null pointer.\<close>

definition ane_zmalloc :: "host \<Rightarrow> nat \<Rightarrow> byte list option" where
  "ane_zmalloc h sz =
     (case malloc_res h sz of
        None \<Rightarrow> None
      | Some junk \<Rightarrow> memset (map junk [0..<sz]) 0 sz)"

definition ane_zmemalign :: "host \<Rightarrow> nat \<Rightarrow> byte list option" where
  "ane_zmemalign h sz =
     (case memalign_res h sz of
        None \<Rightarrow> None
      | Some junk \<Rightarrow> memset (map junk [0..<sz]) 0 sz)"

text \<open>
  \<^verbatim>\<open>fopen\<close>, \<^verbatim>\<open>fseek(fp, off, SEEK_SET)\<close> and \<^verbatim>\<open>fread(buf, 1, sz, fp)\<close>. The offset of
  \<^verbatim>\<open>fseek\<close> is a \<^verbatim>\<open>long\<close>: a negative one is refused, and so is one the stream cannot be
  positioned at.
\<close>

definition fopen :: "host \<Rightarrow> string \<Rightarrow> host \<times> stdio_file option" where
  "fopen h fname = (h\<lparr>n_fopen := Suc (n_fopen h)\<rparr>, fopen_res h (n_fopen h) fname)"

definition fseek :: "stdio_file \<Rightarrow> int \<Rightarrow> stdio_file option" where
  "fseek fp off =
     (if 0 \<le> off \<and> seekable fp (nat off)
      then Some (fp\<lparr>content := drop (nat off) (content fp)\<rparr>)
      else None)"

definition fread :: "byte list \<Rightarrow> nat \<Rightarrow> stdio_file \<Rightarrow> (nat \<times> byte list) option" where
  "fread buf sz fp =
     (let got = take sz (content fp)
      in case memcpy buf 0 got 0 (length got) of
           None \<Rightarrow> None
         | Some buf' \<Rightarrow> Some (length got, buf'))"

text \<open>
  \<^verbatim>\<open>ane_fread\<close> and \<^verbatim>\<open>ane_pread\<close>: a count read that differs from the count requested is
  only reported on the error stream; both then return 0. \<^verbatim>\<open>ane_pread\<close> passes its
  \<^verbatim>\<open>uint64_t\<close> offset to the \<^verbatim>\<open>long\<close> parameter of \<^verbatim>\<open>fseek\<close>; \<^verbatim>\<open>long\<close> has 64 bits on the
  targets of the library, so the value passed is the signed reading of the word.
\<close>

definition ane_fread :: "host \<Rightarrow> string \<Rightarrow> byte list \<Rightarrow> u64 \<Rightarrow> (int \<times> host \<times> byte list) option" where
  "ane_fread h fname buf sz =
     (case fopen h fname of
        (h', None) \<Rightarrow> Some (- EINVAL, h', buf)
      | (h', Some fp) \<Rightarrow>
          (case fread buf (unat sz) fp of
             None \<Rightarrow> None
           | Some (n_read, buf') \<Rightarrow> Some (0, h', buf')))"

definition ane_pread ::
  "host \<Rightarrow> string \<Rightarrow> byte list \<Rightarrow> u64 \<Rightarrow> u64 \<Rightarrow> (int \<times> host \<times> byte list) option" where
  "ane_pread h fname buf sz off =
     (case fopen h fname of
        (h', None) \<Rightarrow> Some (- EINVAL, h', buf)
      | (h', Some fp) \<Rightarrow>
          (case fseek fp (sint off) of
             None \<Rightarrow> Some (- EINVAL, h', buf)
           | Some fp' \<Rightarrow>
               (case fread buf (unat sz) fp' of
                  None \<Rightarrow> None
                | Some (n_read, buf') \<Rightarrow> Some (0, h', buf'))))"

text \<open>
  \<^verbatim>\<open>ane_model_init\<close>; the second component of the result is \<open>None\<close> for a null model.
\<close>

definition ane_model_init :: "abi \<Rightarrow> host \<Rightarrow> string \<Rightarrow> (host \<times> ane_model option) option" where
  "ane_model_init abi h path =
     (case ane_zmalloc h (unat (sizeof_ane_model abi)) of
        None \<Rightarrow> Some (h, None)
      | Some mem \<Rightarrow>
          (case ane_fread h path (take (unat (sizeof_anec abi)) mem) (sizeof_anec abi) of
             None \<Rightarrow> None
           | Some (err, h1, anec_mem) \<Rightarrow>
               if err < 0 then Some (h1, None)
               else
                 let anec = anec_of_bytes abi anec_mem in
                 (case ane_zmemalign h1 (unat (anec_size anec)) of
                    None \<Rightarrow> Some (h1, None)
                  | Some buf \<Rightarrow>
                      (case ane_pread h1 path buf (anec_size anec) ANEC_SIZE of
                         None \<Rightarrow> None
                       | Some (err, h2, buf') \<Rightarrow>
                           if err < 0 then Some (h2, None)
                           else Some (h2, Some \<lparr>model_anec = anec, model_data = buf'\<rparr>)))))"

subsection \<open>Example inputs\<close>

text \<open>
  A descriptor with one destination and one source channel (channels 0, 4 and 5 present),
  devices whose calls succeed, whose mappings all fail, or whose \<open>n\<close>-th call fails, a
  channel set whose destination count makes the index sum wrap, one with channel 5 mapped,
  a host whose model file holds the given bytes, a header layout whose first eight bytes
  are the payload size (least significant byte first), and a host that cannot allocate
  \<open>2 ^ 40\<close> bytes or more.
\<close>

definition ex_anec :: anec where
  "ex_anec = \<lparr>anec_size = 8, td_size = 6, src_count = 1, dst_count = 1,
     tiles = [1, 0, 0, 0, 1, 2] @ replicate 58 0\<rparr>"

definition ex_model :: ane_model where
  "ex_model = \<lparr>model_anec = ex_anec, model_data = [0x11, 0x22, 0x33, 0xF4, 5, 6, 7, 8]\<rparr>"

definition ex_device :: ane_device where
  "ex_device = \<lparr>fd = 3,
     drm_bo_init = (\<lambda>k sz. (0, of_nat k + 1, push_bit 14 (of_nat k))),
     drm_bo_free = (\<lambda>k h. 0),
     sys_mmap = (\<lambda>k sz off. Some (\<lambda>i. 0xAA)),
     trace = []\<rparr>"

definition ex_device_nomap :: ane_device where
  "ex_device_nomap = ex_device\<lparr>sys_mmap := (\<lambda>k sz off. None)\<rparr>"

definition ex_device_fail :: "nat \<Rightarrow> ane_device" where
  "ex_device_fail n = ex_device\<lparr>sys_mmap := (\<lambda>k sz off. if k = n then None else Some (\<lambda>i. 0xAA))\<rparr>"



definition ex_abi :: abi where
  "ex_abi = \<lparr>sizeof_ane_model = 24, sizeof_anec = 16,
     anec_of_bytes = (\<lambda>bs. \<lparr>anec_size = ucast (bs ! 0), td_size = ucast (bs ! 1),
        src_count = 1, dst_count = 1, tiles = replicate 64 0\<rparr>)\<rparr>"

definition ex_host :: "byte list \<Rightarrow> host" where
  "ex_host bytes = \<lparr>malloc_res = (\<lambda>sz. Some (\<lambda>i. 0x55)),
     memalign_res = (\<lambda>sz. Some (\<lambda>i. 0x66)),
     fopen_res = (\<lambda>k name. if name = ''model.anec''
        then Some \<lparr>content = bytes, seekable = (\<lambda>off. True)\<rparr> else None),
     n_fopen = 0\<rparr>"

definition ex_abi_wide :: abi where
  "ex_abi_wide = ex_abi\<lparr>anec_of_bytes := (\<lambda>bs.
     \<lparr>anec_size = foldr (\<lambda>b w. ucast b OR push_bit 8 w) (take 8 bs) 0, td_size = 0,
      src_count = 1, dst_count = 1, tiles = replicate 64 0\<rparr>)\<rparr>"

definition ex_host_bounded :: "byte list \<Rightarrow> host" where
  "ex_host_bounded bytes = (ex_host bytes)\<lparr>memalign_res :=
     (\<lambda>sz. if sz < 2 ^ 40 then Some (\<lambda>i. 0x66) else None)\<rparr>"

section \<open>The tiling transform: proofs\<close>

subsection \<open>Loop rules\<close>

lemma unat_inc: "i < (n::u64) \<Longrightarrow> unat (i + 1) = Suc (unat i)"
proof -
  assume "i < n"
  then have "unat i < unat n" by (simp add: word_less_nat_alt)
  then have "unat i + 1 < 2 ^ 64"
    using unsigned_less [of n, where 'a = nat] by simp
  then show ?thesis by (simp add: unat_word_ariths)
qed

lemma for_u64_rule:
  assumes "I (unat i) s" and "i \<le> n"
    and step: "\<And>k s. unat i \<le> k \<Longrightarrow> k < unat n \<Longrightarrow> I k s \<Longrightarrow>
              \<exists>s'. body (of_nat k) s = Some s' \<and> I (Suc k) s'"
  shows "\<exists>s'. for_u64 i n body s = Some s' \<and> I (unat n) s'"
  using assms
proof (induction i n body s rule: for_u64.induct)
  case (1 i n body s)
  show ?case
  proof (cases "i < n")
    case True
    then have lt: "unat i < unat n" by (simp add: word_less_nat_alt)
    from "1.prems"(3) [OF le_refl lt "1.prems"(1)]
    obtain s' where b: "body i s = Some s'" and I': "I (Suc (unat i)) s'" by auto
    have inc: "unat (i + 1) = Suc (unat i)" using True by (rule unat_inc)
    have le: "i + 1 \<le> n" using lt inc by (simp add: word_le_nat_alt)
    have "\<exists>s''. for_u64 (i + 1) n body s' = Some s'' \<and> I (unat n) s''"
    proof (rule "1.IH" [OF True b])
      show "I (unat (i + 1)) s'" using I' inc by simp
      show "i + 1 \<le> n" by (rule le)
      fix k t assume "unat (i + 1) \<le> k" "k < unat n" "I k t"
      then show "\<exists>s'. body (word_of_nat k) t = Some s' \<and> I (Suc k) s'"
        using "1.prems"(3) [of k t] inc by simp
    qed
    then show ?thesis using True b by (subst for_u64.simps) simp
  next
    case False
    then have "i = n" using "1.prems"(2) by simp
    then show ?thesis using "1.prems"(1) by (subst for_u64.simps) simp
  qed
qed

lemma nest3_rule:
  fixes N C H :: u64
  assumes init: "I 0 s"
    and step: "\<And>n c h s. n < unat N \<Longrightarrow> c < unat C \<Longrightarrow> h < unat H \<Longrightarrow>
                 I ((n * unat C + c) * unat H + h) s \<Longrightarrow>
                 \<exists>s'. body (of_nat n) (of_nat c) (of_nat h) s = Some s' \<and>
                      I (Suc ((n * unat C + c) * unat H + h)) s'"
  shows "\<exists>s'. for_u64 0 N (\<lambda>n. for_u64 0 C (\<lambda>c. for_u64 0 H (\<lambda>h. body n c h))) s = Some s'
               \<and> I (unat N * unat C * unat H) s'"
proof -
  have inner: "\<exists>s'. for_u64 0 H (\<lambda>h. body (of_nat n) (of_nat c) h) s = Some s'
                  \<and> I ((n * unat C + Suc c) * unat H) s'"
    if "n < unat N" "c < unat C" "I ((n * unat C + c) * unat H) s" for n c s
  proof -
    have "\<exists>s'. for_u64 0 H (\<lambda>h. body (of_nat n) (of_nat c) h) s = Some s'
              \<and> (\<lambda>h. I ((n * unat C + c) * unat H + h)) (unat H) s'"
      by (rule for_u64_rule) (use that step in auto)
    then show ?thesis by (simp add: algebra_simps)
  qed
  have middle: "\<exists>s'. for_u64 0 C (\<lambda>c. for_u64 0 H (\<lambda>h. body (of_nat n) c h)) s = Some s'
                  \<and> I (Suc n * unat C * unat H) s'"
    if "n < unat N" "I (n * unat C * unat H) s" for n s
  proof -
    have "\<exists>s'. for_u64 0 C (\<lambda>c. for_u64 0 H (\<lambda>h. body (of_nat n) c h)) s = Some s'
              \<and> (\<lambda>c. I ((n * unat C + c) * unat H)) (unat C) s'"
      by (rule for_u64_rule) (use that inner in auto)
    then show ?thesis by (simp add: algebra_simps)
  qed
  have "\<exists>s'. for_u64 0 N (\<lambda>n. for_u64 0 C (\<lambda>c. for_u64 0 H (\<lambda>h. body n c h))) s = Some s'
            \<and> (\<lambda>n. I (n * unat C * unat H)) (unat N) s'"
    by (rule for_u64_rule) (use init middle in auto)
  then show ?thesis by simp
qed

lemma row_bound:
  fixes n c h :: nat
  assumes "n < N" "c < C" "h < H"
  shows "Suc ((n * C + c) * H + h) \<le> N * C * H"
proof -
  have "Suc (n * C + c) \<le> N * C"
  proof -
    have "n * C + C \<le> N * C" using assms(1)
      by (metis Suc_leI mult_Suc mult_le_mono1 add.commute)
    then show ?thesis using assms(2) by linarith
  qed
  then have "Suc (n * C + c) * H \<le> N * C * H" by (rule mult_le_mono1)
  then show ?thesis using assms(3) by simp
qed

lemma row_inj:
  fixes n c h n' c' h' :: nat
  assumes "c < C" "c' < C" "h < H" "h' < H"
    and eq: "(n * C + c) * H + h = (n' * C + c') * H + h'"
  shows "n = n' \<and> c = c' \<and> h = h'"
proof -
  from eq have "((n * C + c) * H + h) mod H = ((n' * C + c') * H + h') mod H"
    by (rule arg_cong)
  then have h: "h = h'" using assms(3,4) by simp
  from eq have "((n * C + c) * H + h) div H = ((n' * C + c') * H + h') div H"
    by (rule arg_cong)
  then have e2: "n * C + c = n' * C + c'" using assms(3,4) by simp
  from e2 have "(n * C + c) mod C = (n' * C + c') mod C" by (rule arg_cong)
  then have c: "c = c'" using assms(1,2) by simp
  from e2 have "(n * C + c) div C = (n' * C + c') div C" by (rule arg_cong)
  then have "n = n'" using assms(1,2) by simp
  with h c show ?thesis by simp
qed

lemma row_disjoint:
  fixes r r' b b' w pitch :: nat
  assumes "r \<noteq> r'" "b < w" "b' < w" "w \<le> pitch"
  shows "r * pitch + b \<noteq> r' * pitch + b'"
proof -
  have aux: "x * pitch + y < x' * pitch + y'" if "x < x'" "y < w" for x x' y y' :: nat
  proof -
    have "Suc x * pitch \<le> x' * pitch" using that(1) by (intro mult_le_mono1) simp
    then show ?thesis using that(2) assms(4) by simp
  qed
  show ?thesis
  proof (cases "r < r'")
    case True
    then show ?thesis using aux [of r r' b b'] assms by simp
  next
    case False
    then have "r' < r" using assms(1) by simp
    then show ?thesis using aux [of r' r b' b] assms by simp
  qed
qed

lemma row_decompose:
  fixes p N C H w :: nat
  assumes "p < N * C * H * w"
  shows "\<exists>n c h b. n < N \<and> c < C \<and> h < H \<and> b < w \<and> p = ((n * C + c) * H + h) * w + b"
proof -
  have w: "0 < w" using assms by (cases w) auto
  define r where "r = p div w"
  define b where "b = p mod w"
  have r: "r < N * C * H" unfolding r_def using assms w
    by (simp add: less_mult_imp_div_less)
  then have H: "0 < H" by (cases H) auto
  define q where "q = r div H"
  have q: "q < N * C" unfolding q_def using r H by (simp add: less_mult_imp_div_less)
  then have C: "0 < C" by (cases C) auto
  have n: "q div C < N" using q C by (simp add: less_mult_imp_div_less)
  have "p = r * w + b" by (simp add: r_def b_def)
  moreover have "r = q * H + r mod H" by (simp add: q_def)
  moreover have "q = (q div C) * C + q mod C" by simp
  ultimately have "p = (((q div C) * C + q mod C) * H + r mod H) * w + b" by simp
  moreover have "q mod C < C" "r mod H < H" "b < w" using C H w by (simp_all add: b_def)
  ultimately show ?thesis using n by blast
qed

lemma unat_off:
  fixes C H W :: u64 and n c h :: nat
  assumes "((n * unat C + c) * unat H + h) * (unat W * 2) < 2 ^ 64"
  shows "unat ((of_nat n * (C * H * W) + of_nat c * (H * W) + of_nat h * W) * 2)
         = ((n * unat C + c) * unat H + h) * (unat W * 2)"
proof -
  have "(of_nat n * (C * H * W) + of_nat c * (H * W) + of_nat h * W) * 2
        = (of_nat (((n * unat C + c) * unat H + h) * (unat W * 2)) :: u64)"
    by (simp add: algebra_simps)
  then show ?thesis using assms by (simp only: unat_of_nat) simp
qed

lemma memcpy_Some:
  assumes "doff + n \<le> length dst" "soff + n \<le> length src"
  shows "\<exists>d. memcpy dst doff src soff n = Some d \<and> length d = length dst
            \<and> (\<forall>b<n. d ! (doff + b) = src ! (soff + b))
            \<and> (\<forall>p<length dst. p < doff \<or> doff + n \<le> p \<longrightarrow> d ! p = dst ! p)"
proof -
  let ?a = "take doff dst" and ?b = "take n (drop soff src)" and ?c = "drop (doff + n) dst"
  have la: "length ?a = doff" and lb: "length ?b = n" using assms by simp_all
  have m: "memcpy dst doff src soff n = Some (?a @ ?b @ ?c)" using assms by (simp add: memcpy_def)
  have l: "length (?a @ ?b @ ?c) = length dst" using assms by simp
  have c: "(?a @ ?b @ ?c) ! (doff + b) = src ! (soff + b)" if "b < n" for b
  proof -
    have "(?a @ ?b @ ?c) ! (doff + b) = (?b @ ?c) ! b" using la by (simp add: nth_append)
    also have "\<dots> = ?b ! b" using lb that by (simp add: nth_append)
    also have "\<dots> = src ! (soff + b)" using that assms by simp
    finally show ?thesis .
  qed
  have k: "(?a @ ?b @ ?c) ! p = dst ! p" if "p < length dst" "p < doff \<or> doff + n \<le> p" for p
  proof (cases "p < doff")
    case True
    then show ?thesis using la by (simp add: nth_append)
  next
    case False
    then have ge: "doff + n \<le> p" using that by simp
    then have "(?a @ ?b @ ?c) ! p = (?b @ ?c) ! (p - doff)" using la by (simp add: nth_append)
    also have "\<dots> = ?c ! (p - doff - n)" using lb ge by (simp add: nth_append)
    also have "\<dots> = dst ! p" using ge that(1) by simp
    finally show ?thesis .
  qed
  show ?thesis using m l c k by blast
qed

lemma memset_Some:
  assumes "n \<le> length dst"
  shows "\<exists>d. memset dst v n = Some d \<and> length d = length dst
            \<and> (\<forall>p<n. d ! p = v) \<and> (\<forall>p<length dst. n \<le> p \<longrightarrow> d ! p = dst ! p)"
  using assms by (simp add: memset_def nth_append)

subsection \<open>What the two row copies compute\<close>

lemma ane_tile_spec:
  fixes N C H W P R :: u64
  assumes R: "R \<noteq> 0" and HP: "H \<le> P div R" and WR: "W \<le> R div 2"
    and ldata: "unat N * unat C * unat H * (unat W * 2) \<le> length data"
    and ltile: "unat N * unat C * unat (P div R) * (unat (R div 2) * 2) \<le> length tile"
    and fit: "length data < 2 ^ 64" "length tile < 2 ^ 64"
  shows "\<exists>t. ane_tile data tile N C H W P R = Some t \<and> length t = length tile \<and>
           (\<forall>n c h b. n < unat N \<and> c < unat C \<and> h < unat H \<and> b < unat W * 2 \<longrightarrow>
              t ! (((n * unat C + c) * unat (P div R) + h) * (unat (R div 2) * 2) + b)
              = data ! (((n * unat C + c) * unat H + h) * (unat W * 2) + b))"
proof -
  define nH where "nH = P div R"
  define nW where "nW = R div 2"
  have HnH: "unat H \<le> unat nH" using HP by (simp add: nH_def word_le_nat_alt)
  have WnW: "unat W \<le> unat nW" using WR by (simp add: nW_def word_le_nat_alt)
  have W2: "unat (W * 2) = unat W * 2" if "0 < unat N" "0 < unat C" "0 < unat H"
  proof -
    have "0 < unat N * unat C * unat H" using that by simp
    then have "unat W * 2 \<le> unat N * unat C * unat H * (unat W * 2)" by simp
    then have "unat W * 2 < 2 ^ 64" using ldata fit by linarith
    then show ?thesis by (simp add: unat_word_ariths)
  qed
  define I where "I k t \<longleftrightarrow> length t = length tile \<and>
           (\<forall>n c h b. c < unat C \<and> h < unat H \<and> (n * unat C + c) * unat H + h < k \<and> b < unat W * 2 \<longrightarrow>
              t ! (((n * unat C + c) * unat nH + h) * (unat nW * 2) + b)
              = data ! (((n * unat C + c) * unat H + h) * (unat W * 2) + b))" for k t
  let ?body = "\<lambda>n c h tile.
                 let src = (n * (C * H * W) + c * (H * W) + h * W) * 2;
                     dst = (n * (C * nH * nW) + c * (nH * nW) + h * nW) * 2
                 in memcpy tile (unat dst) data (unat src) (unat (W * 2))"
  have "\<exists>t. for_u64 0 N (\<lambda>n. for_u64 0 C (\<lambda>c. for_u64 0 H (\<lambda>h. ?body n c h))) tile = Some t
            \<and> I (unat N * unat C * unat H) t"
  proof (rule nest3_rule)
    show "I 0 tile" by (simp add: I_def)
  next
    fix n c h t
    assume n: "n < unat N" and c: "c < unat C" and h: "h < unat H"
      and I: "I ((n * unat C + c) * unat H + h) t"
    let ?rD = "(n * unat C + c) * unat H + h"
    let ?rT = "(n * unat C + c) * unat nH + h"
    have h': "h < unat nH" using h HnH by simp
    have rD: "Suc ?rD \<le> unat N * unat C * unat H" using n c h by (rule row_bound)
    have rT: "Suc ?rT \<le> unat N * unat C * unat nH" using n c h' by (rule row_bound)
    have dend: "?rD * (unat W * 2) + unat W * 2 \<le> length data"
    proof -
      have "Suc ?rD * (unat W * 2) \<le> unat N * unat C * unat H * (unat W * 2)"
        using rD by (rule mult_le_mono1)
      then show ?thesis using ldata by simp
    qed
    have tend: "?rT * (unat nW * 2) + unat W * 2 \<le> length tile"
    proof -
      have "Suc ?rT * (unat nW * 2) \<le> unat N * unat C * unat nH * (unat nW * 2)"
        using rT by (rule mult_le_mono1)
      then show ?thesis using ltile WnW by (simp add: nH_def nW_def)
    qed
    have so: "unat ((of_nat n * (C * H * W) + of_nat c * (H * W) + of_nat h * W) * 2) = ?rD * (unat W * 2)"
      by (rule unat_off) (use dend fit in linarith)
    have do: "unat ((of_nat n * (C * nH * nW) + of_nat c * (nH * nW) + of_nat h * nW) * 2) = ?rT * (unat nW * 2)"
      by (rule unat_off) (use tend fit in linarith)
    have st: "unat (W * 2) = unat W * 2" using n c h by (intro W2) simp_all
    have lt: "length t = length tile" using I by (simp add: I_def)
    have "\<exists>d. memcpy t (?rT * (unat nW * 2)) data (?rD * (unat W * 2)) (unat W * 2) = Some d
            \<and> length d = length t
            \<and> (\<forall>b<unat W * 2. d ! (?rT * (unat nW * 2) + b) = data ! (?rD * (unat W * 2) + b))
            \<and> (\<forall>p<length t. p < ?rT * (unat nW * 2) \<or> ?rT * (unat nW * 2) + unat W * 2 \<le> p
                   \<longrightarrow> d ! p = t ! p)"
      by (rule memcpy_Some) (use tend dend lt in simp_all)
    then obtain t' where m: "memcpy t (?rT * (unat nW * 2)) data (?rD * (unat W * 2)) (unat W * 2) = Some t'"
      and l': "length t' = length t"
      and new: "\<forall>b<unat W * 2. t' ! (?rT * (unat nW * 2) + b) = data ! (?rD * (unat W * 2) + b)"
      and old: "\<forall>p<length t. p < ?rT * (unat nW * 2) \<or> ?rT * (unat nW * 2) + unat W * 2 \<le> p
                   \<longrightarrow> t' ! p = t ! p"
      by blast
    have "I (Suc ?rD) t'"
      unfolding I_def
    proof (intro conjI allI impI)
      show "length t' = length tile" using l' I by (simp add: I_def)
    next
      fix n' c' h' b
      assume a: "c' < unat C \<and> h' < unat H \<and> (n' * unat C + c') * unat H + h' < Suc ?rD \<and> b < unat W * 2"
      let ?rD' = "(n' * unat C + c') * unat H + h'"
      let ?rT' = "(n' * unat C + c') * unat nH + h'"
      show "t' ! (?rT' * (unat nW * 2) + b) = data ! (?rD' * (unat W * 2) + b)"
      proof (cases "?rD' = ?rD")
        case True
        then have "n' = n \<and> c' = c \<and> h' = h" using a c h by (intro row_inj [of _ "unat C" _ _ "unat H"]) simp_all
        then show ?thesis using new a by simp
      next
        case False
        then have lt: "?rD' < ?rD" using a by simp
        have ne: "(n', c', h') \<noteq> (n, c, h)" using False by auto
        have "?rT' \<noteq> ?rT"
        proof
          assume "?rT' = ?rT"
          then have "n' = n \<and> c' = c \<and> h' = h"
            using a c h' HnH by (intro row_inj [of _ "unat C" _ _ "unat nH"]) simp_all
          then show False using ne by simp
        qed
        then have dis: "?rT' * (unat nW * 2) + b \<noteq> ?rT * (unat nW * 2) + b'" if "b' < unat W * 2" for b'
          using that a WnW by (intro row_disjoint [where w = "unat W * 2" and pitch = "unat nW * 2" and r = "?rT'" and r' = "?rT"]) simp_all
        have out: "?rT' * (unat nW * 2) + b < ?rT * (unat nW * 2) \<or> ?rT * (unat nW * 2) + unat W * 2 \<le> ?rT' * (unat nW * 2) + b"
        proof (rule ccontr)
          assume "\<not> ?thesis"
          then have "?rT * (unat nW * 2) \<le> ?rT' * (unat nW * 2) + b" "?rT' * (unat nW * 2) + b < ?rT * (unat nW * 2) + unat W * 2"
            by simp_all
          then obtain b' where "b' < unat W * 2" "?rT' * (unat nW * 2) + b = ?rT * (unat nW * 2) + b'"
            by (metis add_diff_inverse_nat nat_add_left_cancel_less not_less)
          then show False using dis by blast
        qed
        have inb: "?rT' * (unat nW * 2) + b < length t"
        proof -
          have "n' < unat N"
          proof (rule ccontr)
            assume "\<not> n' < unat N"
            then have "unat N \<le> n'" by simp
            then have "unat N * unat C * unat H \<le> n' * unat C * unat H" by (intro mult_le_mono1)
            also have "\<dots> \<le> ?rD'" by (simp add: algebra_simps)
            finally show False using lt rD by simp
          qed
          moreover have "h' < unat nH" using a HnH by simp
          ultimately have "Suc ?rT' \<le> unat N * unat C * unat nH" using a by (intro row_bound) simp_all
          then have "Suc ?rT' * (unat nW * 2) \<le> unat N * unat C * unat nH * (unat nW * 2)"
            by (rule mult_le_mono1)
          then show ?thesis using ltile WnW a I by (simp add: nH_def nW_def I_def)
        qed
        have "t' ! (?rT' * (unat nW * 2) + b) = t ! (?rT' * (unat nW * 2) + b)"
          using old inb out by blast
        also have "\<dots> = data ! (?rD' * (unat W * 2) + b)"
          using I a lt unfolding I_def by blast
        finally show ?thesis .
      qed
    qed
    then show "\<exists>s'. ?body (of_nat n) (of_nat c) (of_nat h) t = Some s' \<and> I (Suc ?rD) s'"
      using m so do st by (simp add: Let_def)
  qed
  then obtain t where t: "for_u64 0 N (\<lambda>n. for_u64 0 C (\<lambda>c. for_u64 0 H (\<lambda>h. ?body n c h))) tile = Some t"
    and It: "I (unat N * unat C * unat H) t" by blast
  have "ane_tile data tile N C H W P R = Some t"
    using t R by (simp add: ane_tile_def Let_def nH_def nW_def)
  moreover have "length t = length tile" using It by (simp add: I_def)
  moreover have "t ! (((n * unat C + c) * unat (P div R) + h) * (unat (R div 2) * 2) + b)
              = data ! (((n * unat C + c) * unat H + h) * (unat W * 2) + b)"
    if "n < unat N \<and> c < unat C \<and> h < unat H \<and> b < unat W * 2" for n c h b
  proof -
    have "Suc ((n * unat C + c) * unat H + h) \<le> unat N * unat C * unat H"
      using that by (intro row_bound) simp_all
    then show ?thesis using It that unfolding I_def nH_def nW_def by simp
  qed
  ultimately show ?thesis by blast
qed

lemma unat_total:
  fixes N C H W :: u64
  assumes "unat N * unat C * unat H * (unat W * 2) < 2 ^ 64"
  shows "unat (N * C * H * W * 2) = unat N * unat C * unat H * (unat W * 2)"
proof -
  have "N * C * H * W * 2 = (of_nat (unat N * unat C * unat H * (unat W * 2)) :: u64)"
    by (simp add: algebra_simps)
  then show ?thesis using assms by (simp only: unat_of_nat) simp
qed

lemma ane_untile_spec:
  fixes N C H W P R :: u64
  assumes R: "R \<noteq> 0" and HP: "H \<le> P div R" and WR: "W \<le> R div 2"
    and ldata: "unat N * unat C * unat H * (unat W * 2) \<le> length data"
    and ltile: "unat N * unat C * unat (P div R) * (unat (R div 2) * 2) \<le> length tile"
    and fit: "length data < 2 ^ 64" "length tile < 2 ^ 64"
  shows "\<exists>d. ane_untile data tile N C H W P R = Some d \<and> length d = length data \<and>
           (\<forall>n c h b. n < unat N \<and> c < unat C \<and> h < unat H \<and> b < unat W * 2 \<longrightarrow>
              d ! (((n * unat C + c) * unat H + h) * (unat W * 2) + b)
              = tile ! (((n * unat C + c) * unat (P div R) + h) * (unat (R div 2) * 2) + b)) \<and>
           (\<forall>p<length data. unat N * unat C * unat H * (unat W * 2) \<le> p \<longrightarrow> d ! p = data ! p)"
proof -
  define nH where "nH = P div R"
  define nW where "nW = R div 2"
  define total where "total = unat N * unat C * unat H * (unat W * 2)"
  have HnH: "unat H \<le> unat nH" using HP by (simp add: nH_def word_le_nat_alt)
  have WnW: "unat W \<le> unat nW" using WR by (simp add: nW_def word_le_nat_alt)
  have tot: "unat (N * C * H * W * 2) = total"
    unfolding total_def by (rule unat_total) (use ldata fit in linarith)
  have W2: "unat (W * 2) = unat W * 2" if "0 < unat N" "0 < unat C" "0 < unat H"
  proof -
    have "0 < unat N * unat C * unat H" using that by simp
    then have "unat W * 2 \<le> unat N * unat C * unat H * (unat W * 2)" by simp
    then have "unat W * 2 < 2 ^ 64" using ldata fit by linarith
    then show ?thesis by (simp add: unat_word_ariths)
  qed
  have "\<exists>d. memset data 0 total = Some d \<and> length d = length data
            \<and> (\<forall>p<total. d ! p = 0) \<and> (\<forall>p<length data. total \<le> p \<longrightarrow> d ! p = data ! p)"
    by (rule memset_Some) (use ldata in \<open>simp add: total_def\<close>)
  then obtain d0 where ms: "memset data 0 total = Some d0" and l0: "length d0 = length data"
    and keep0: "\<forall>p<length data. total \<le> p \<longrightarrow> d0 ! p = data ! p" by blast
  define I where "I k d \<longleftrightarrow> length d = length data \<and>
           (\<forall>n c h b. c < unat C \<and> h < unat H \<and> (n * unat C + c) * unat H + h < k \<and> b < unat W * 2 \<longrightarrow>
              d ! (((n * unat C + c) * unat H + h) * (unat W * 2) + b)
              = tile ! (((n * unat C + c) * unat nH + h) * (unat nW * 2) + b)) \<and>
           (\<forall>p<length data. total \<le> p \<longrightarrow> d ! p = data ! p)" for k d
  let ?body = "\<lambda>n c h data.
                 let src = (n * (C * nH * nW) + c * (nH * nW) + h * nW) * 2;
                     dst = (n * (C * H * W) + c * (H * W) + h * W) * 2
                 in memcpy data (unat dst) tile (unat src) (unat (W * 2))"
  have "\<exists>d. for_u64 0 N (\<lambda>n. for_u64 0 C (\<lambda>c. for_u64 0 H (\<lambda>h. ?body n c h))) d0 = Some d
            \<and> I (unat N * unat C * unat H) d"
  proof (rule nest3_rule)
    show "I 0 d0" using l0 keep0 by (simp add: I_def)
  next
    fix n c h d
    assume n: "n < unat N" and c: "c < unat C" and h: "h < unat H"
      and I: "I ((n * unat C + c) * unat H + h) d"
    let ?rD = "(n * unat C + c) * unat H + h"
    let ?rT = "(n * unat C + c) * unat nH + h"
    have h': "h < unat nH" using h HnH by simp
    have rD: "Suc ?rD \<le> unat N * unat C * unat H" using n c h by (rule row_bound)
    have rT: "Suc ?rT \<le> unat N * unat C * unat nH" using n c h' by (rule row_bound)
    have dtot: "?rD * (unat W * 2) + unat W * 2 \<le> total"
    proof -
      have "Suc ?rD * (unat W * 2) \<le> unat N * unat C * unat H * (unat W * 2)"
        using rD by (rule mult_le_mono1)
      then show ?thesis by (simp add: total_def)
    qed
    then have dend: "?rD * (unat W * 2) + unat W * 2 \<le> length data"
      using ldata by (simp add: total_def)
    have tend: "?rT * (unat nW * 2) + unat W * 2 \<le> length tile"
    proof -
      have "Suc ?rT * (unat nW * 2) \<le> unat N * unat C * unat nH * (unat nW * 2)"
        using rT by (rule mult_le_mono1)
      then show ?thesis using ltile WnW by (simp add: nH_def nW_def)
    qed
    have do: "unat ((of_nat n * (C * H * W) + of_nat c * (H * W) + of_nat h * W) * 2) = ?rD * (unat W * 2)"
      by (rule unat_off) (use dend fit in linarith)
    have so: "unat ((of_nat n * (C * nH * nW) + of_nat c * (nH * nW) + of_nat h * nW) * 2) = ?rT * (unat nW * 2)"
      by (rule unat_off) (use tend fit in linarith)
    have st: "unat (W * 2) = unat W * 2" using n c h by (intro W2) simp_all
    have ld: "length d = length data" using I by (simp add: I_def)
    have "\<exists>e. memcpy d (?rD * (unat W * 2)) tile (?rT * (unat nW * 2)) (unat W * 2) = Some e
            \<and> length e = length d
            \<and> (\<forall>b<unat W * 2. e ! (?rD * (unat W * 2) + b) = tile ! (?rT * (unat nW * 2) + b))
            \<and> (\<forall>p<length d. p < ?rD * (unat W * 2) \<or> ?rD * (unat W * 2) + unat W * 2 \<le> p
                   \<longrightarrow> e ! p = d ! p)"
      by (rule memcpy_Some) (use tend dend ld in simp_all)
    then obtain d' where m: "memcpy d (?rD * (unat W * 2)) tile (?rT * (unat nW * 2)) (unat W * 2) = Some d'"
      and l': "length d' = length d"
      and new: "\<forall>b<unat W * 2. d' ! (?rD * (unat W * 2) + b) = tile ! (?rT * (unat nW * 2) + b)"
      and old: "\<forall>p<length d. p < ?rD * (unat W * 2) \<or> ?rD * (unat W * 2) + unat W * 2 \<le> p
                   \<longrightarrow> d' ! p = d ! p"
      by blast
    have "I (Suc ?rD) d'"
      unfolding I_def
    proof (intro conjI allI impI)
      show "length d' = length data" using l' ld by simp
    next
      fix p assume p: "p < length data" "total \<le> p"
      have "?rD * (unat W * 2) + unat W * 2 \<le> p" using dtot p by linarith
      moreover have "p < length d" using p ld by simp
      ultimately have "d' ! p = d ! p" using old by blast
      also have "\<dots> = data ! p" using I p unfolding I_def by blast
      finally show "d' ! p = data ! p" .
    next
      fix n' c' h' b
      assume a: "c' < unat C \<and> h' < unat H \<and> (n' * unat C + c') * unat H + h' < Suc ?rD \<and> b < unat W * 2"
      let ?rD' = "(n' * unat C + c') * unat H + h'"
      let ?rT' = "(n' * unat C + c') * unat nH + h'"
      show "d' ! (?rD' * (unat W * 2) + b) = tile ! (?rT' * (unat nW * 2) + b)"
      proof (cases "?rD' = ?rD")
        case True
        then have "n' = n \<and> c' = c \<and> h' = h" using a c h by (intro row_inj [of _ "unat C" _ _ "unat H"]) simp_all
        then show ?thesis using new a by simp
      next
        case False
        then have lt: "?rD' < ?rD" using a by simp
        then have "Suc ?rD' * (unat W * 2) \<le> ?rD * (unat W * 2)"
          by (intro mult_le_mono1) simp
        then have before: "?rD' * (unat W * 2) + b < ?rD * (unat W * 2)" using a by simp
        then have inb: "?rD' * (unat W * 2) + b < length d" using dend ld by linarith
        have "d' ! (?rD' * (unat W * 2) + b) = d ! (?rD' * (unat W * 2) + b)"
          using old inb before by blast
        also have "\<dots> = tile ! (?rT' * (unat nW * 2) + b)"
          using I a lt unfolding I_def by blast
        finally show ?thesis .
      qed
    qed
    then show "\<exists>s'. ?body (of_nat n) (of_nat c) (of_nat h) d = Some s' \<and> I (Suc ?rD) s'"
      using m so do st by (simp add: Let_def)
  qed
  then obtain d where d: "for_u64 0 N (\<lambda>n. for_u64 0 C (\<lambda>c. for_u64 0 H (\<lambda>h. ?body n c h))) d0 = Some d"
    and Id: "I (unat N * unat C * unat H) d" by blast
  have "ane_untile data tile N C H W P R = Some d"
    using d R ms tot by (simp add: ane_untile_def Let_def nH_def nW_def)
  moreover have "length d = length data" using Id by (simp add: I_def)
  moreover have "d ! (((n * unat C + c) * unat H + h) * (unat W * 2) + b)
              = tile ! (((n * unat C + c) * unat (P div R) + h) * (unat (R div 2) * 2) + b)"
    if "n < unat N \<and> c < unat C \<and> h < unat H \<and> b < unat W * 2" for n c h b
  proof -
    have "Suc ((n * unat C + c) * unat H + h) \<le> unat N * unat C * unat H"
      using that by (intro row_bound) simp_all
    then show ?thesis using Id that unfolding I_def nH_def nW_def by simp
  qed
  moreover have "\<forall>p<length data. unat N * unat C * unat H * (unat W * 2) \<le> p \<longrightarrow> d ! p = data ! p"
    using Id unfolding I_def total_def by blast
  ultimately show ?thesis by blast
qed


text \<open>
  Claim C1. For word parameters with \<open>R \<noteq> 0\<close>, \<open>H \<le> P / R\<close> and \<open>W \<le> R / 2\<close>, a dense
  tensor \<open>X\<close> of \<open>N * C * H * W\<close> two-byte elements and a tile buffer of at least
  \<open>N * C * (P / R) * (R / 2)\<close> elements (both inside the 64-bit address space),
  \<open>ane_tile\<close> is defined and \<open>ane_untile\<close> of its result into any dense buffer of the size
  of \<open>X\<close> is defined and returns exactly \<open>X\<close>. Divisibility of \<open>R\<close> by 2 and of \<open>P\<close> by
  \<open>R\<close> is not needed.
\<close>

theorem ane_tile_untile_roundtrip:
  fixes N C H W P R :: u64
  assumes R: "R \<noteq> 0" and HP: "H \<le> P div R" and WR: "W \<le> R div 2"
    and lX: "length X = unat N * unat C * unat H * unat W * 2"
    and lout: "length out = length X"
    and ltile: "unat N * unat C * unat (P div R) * unat (R div 2) * 2 \<le> length tile"
    and fit: "length X < 2 ^ 64" "length tile < 2 ^ 64"
  shows "\<exists>t. ane_tile X tile N C H W P R = Some t \<and> ane_untile out t N C H W P R = Some X"
proof -
  have lX': "unat N * unat C * unat H * (unat W * 2) \<le> length X" using lX by simp
  have lo': "unat N * unat C * unat H * (unat W * 2) \<le> length out" using lX lout by simp
  have lt': "unat N * unat C * unat (P div R) * (unat (R div 2) * 2) \<le> length tile"
    using ltile by (simp add: mult.assoc)
  from ane_tile_spec [OF R HP WR lX' lt' fit]
  obtain t where t: "ane_tile X tile N C H W P R = Some t" and lt: "length t = length tile"
    and tv: "\<forall>n c h b. n < unat N \<and> c < unat C \<and> h < unat H \<and> b < unat W * 2 \<longrightarrow>
              t ! (((n * unat C + c) * unat (P div R) + h) * (unat (R div 2) * 2) + b)
              = X ! (((n * unat C + c) * unat H + h) * (unat W * 2) + b)" by blast
  have lt'': "unat N * unat C * unat (P div R) * (unat (R div 2) * 2) \<le> length t"
    using lt' lt by simp
  have fo: "length out < 2 ^ 64" "length t < 2 ^ 64" using fit lout lt by simp_all
  from ane_untile_spec [OF R HP WR lo' lt'' fo]
  obtain d where d: "ane_untile out t N C H W P R = Some d" and ld: "length d = length out"
    and dv: "\<forall>n c h b. n < unat N \<and> c < unat C \<and> h < unat H \<and> b < unat W * 2 \<longrightarrow>
              d ! (((n * unat C + c) * unat H + h) * (unat W * 2) + b)
              = t ! (((n * unat C + c) * unat (P div R) + h) * (unat (R div 2) * 2) + b)" by blast
  have "d = X"
  proof (rule nth_equalityI)
    show "length d = length X" using ld lout by simp
  next
    fix p assume "p < length d"
    then have "p < unat N * unat C * unat H * (unat W * 2)" using ld lout lX by simp
    then obtain n c h b where "n < unat N" "c < unat C" "h < unat H" "b < unat W * 2"
      and p: "p = ((n * unat C + c) * unat H + h) * (unat W * 2) + b"
      using row_decompose [of p "unat N" "unat C" "unat H" "unat W * 2"] by blast
    then show "d ! p = X ! p" using dv tv by simp
  qed
  then show ?thesis using t d by simp
qed

theorem ane_tile_untile_roundtrip_witness:
  "\<exists>t. ane_tile [1, 2, 3, 4, 5, 6, 7, 8] (replicate 32 9) 1 1 2 2 16 8 = Some t
       \<and> ane_untile (replicate 8 7) t 1 1 2 2 16 8 = Some [1, 2, 3, 4, 5, 6, 7, 8]"
  by (rule ane_tile_untile_roundtrip) simp_all

subsection \<open>The successive contents of the dense buffer\<close>






section \<open>Word arithmetic of the macros\<close>

lemma word_of_bytes_of_word: "word_of_bytes (bytes_of_word w @ rest) = w"
  unfolding word_of_bytes_def bytes_of_word_def
  apply (rule bit_eqI)
  apply (auto simp add: bit_simps nth_append)
  subgoal for n by (cases "24 \<le> n") auto
  done


lemma and_neg_tile: "(y :: u64) AND (- 0x4000) = push_bit 14 (drop_bit 14 y)"
proof -
  have "(- 0x4000 :: u64) = - (2 ^ 14)" by simp
  also have "\<dots> = NOT (mask 14)" by (rule minus_exp_eq_not_mask)
  finally have e: "(- 0x4000 :: u64) = NOT (mask 14)" .
  have "y AND NOT (mask 14) = push_bit 14 (drop_bit 14 y)"
    by (rule bit_eqI)
      (auto simp only: bit_and_iff bit_not_iff bit_mask_iff bit_push_bit_iff bit_drop_bit_eq
        possible_bit_word, auto)
  then show ?thesis by (simp only: e)
qed

lemma unat_ucast_u32: "unat (ucast (x :: u32) :: u64) = unat x"
  by (simp add: unsigned_ucast_eq take_bit_nat_eq_self unsigned_less [where 'a = nat and w = x, simplified] less_trans [OF unsigned_less])

lemma tile_align_unat:
  "unat (tile_align x) = ((unat x + 16383) div 16384) * 16384"
proof -
  let ?y = "ucast x + 0x4000 - 1 :: u64"
  have ux: "unat x < 2 ^ 32" using unsigned_less [of x, where 'a = nat] by simp
  have y: "unat ?y = unat x + 16383"
  proof -
    have "?y = of_nat (unat x + 16383)" by simp
    then have "unat ?y = (unat x + 16383) mod 2 ^ 64" by (simp only: unat_of_nat) simp
    then show ?thesis using ux by simp
  qed
  have "unat (tile_align x) = unat (push_bit 14 (drop_bit 14 ?y))"
    by (simp add: tile_align_def TILE_SIZE_def and_neg_tile)
  also have "\<dots> = take_bit 64 (push_bit 14 (drop_bit 14 (unat ?y)))"
    by (simp add: unsigned_push_bit_eq unat_drop_bit_eq)
  also have "\<dots> = push_bit 14 (drop_bit 14 (unat ?y))"
  proof (rule take_bit_nat_eq_self)
    have "push_bit 14 (drop_bit 14 (unat ?y)) \<le> unat ?y"
      by (simp add: push_bit_eq_mult drop_bit_eq_div)
    then show "push_bit 14 (drop_bit 14 (unat ?y)) < 2 ^ 64" using y ux by simp
  qed
  finally show ?thesis using y by (simp add: push_bit_eq_mult drop_bit_eq_div)
qed

lemma tile_shift_unat: "unat (tile_shift (x :: u32)) = unat x * 16384"
proof -
  have ux: "unat x < 2 ^ 32" using unsigned_less [of x, where 'a = nat] by simp
  have "unat (tile_shift x) = take_bit 64 (push_bit 14 (unat (ucast x :: u64)))"
    by (simp add: tile_shift_def TILE_SHIFT_def unsigned_push_bit_eq)
  also have "\<dots> = push_bit 14 (unat x)"
    by (rule trans [OF take_bit_nat_eq_self]) (use ux in \<open>simp_all add: unat_ucast_u32 push_bit_eq_mult\<close>)
  finally show ?thesis by (simp add: push_bit_eq_mult)
qed

lemma tile_shift_zero_iff: "tile_shift x = 0 \<longleftrightarrow> x = 0"
proof -
  have "tile_shift x = 0 \<longleftrightarrow> unat (tile_shift x) = 0" by (simp add: unat_eq_0)
  also have "\<dots> \<longleftrightarrow> unat x = 0" by (simp add: tile_shift_unat)
  finally show ?thesis by (simp add: unat_eq_0)
qed

section \<open>Buffer objects and channel sets: proofs\<close>

subsection \<open>Buffer objects\<close>

lemma trace_emit [simp]: "trace (emit e ane) = trace ane @ [e]"
  by (simp add: emit_def)

lemma oracles_emit [simp]:
  "drm_bo_init (emit e ane) = drm_bo_init ane"
  "drm_bo_free (emit e ane) = drm_bo_free ane"
  "sys_mmap (emit e ane) = sys_mmap ane"
  "fd (emit e ane) = fd ane"
  by (simp_all add: emit_def)

text \<open>
  Claim C8. A request of size zero returns \<open>-EINVAL\<close> with no device call. When the
  allocation succeeds and the mapping fails, \<open>ane_bo_init\<close> frees the handle it was just
  given before it returns \<open>-EINVAL\<close>, and leaves the buffer object with handle 0, offset 0
  and no mapping.
\<close>

theorem ane_bo_init_failure_paths:
  "(bo_size bo = 0 \<longrightarrow> ane_bo_init ane r bo = (- EINVAL, ane, bo)) \<and>
   (bo_size bo \<noteq> 0 \<and> drm_bo_init ane (length (trace ane)) (bo_size bo) = (err, h, off) \<and> 0 \<le> err \<and>
    sys_mmap ane (Suc (length (trace ane))) (bo_size bo) off = None \<longrightarrow>
      (\<exists>ane' bo'. ane_bo_init ane r bo = (- EINVAL, ane', bo') \<and>
         trace ane' = trace ane @ [Ev_bo_init r (bo_size bo) err h off,
                                   Ev_mmap r (bo_size bo) off False,
                                   Ev_bo_free r h] \<and>
         bo_handle bo' = 0 \<and> bo_offset bo' = 0 \<and> bo_map bo' = None \<and> bo_size bo' = bo_size bo))"
  by (simp add: ane_bo_init_def bo_init_def bo_mmap_def bo_free_def EINVAL_def)

theorem ane_bo_init_failure_paths_witness:
  "ane_bo_init ex_device_nomap Btsp bo_zero = (- EINVAL, ex_device_nomap, bo_zero) \<and>
   (\<exists>ane' bo'. ane_bo_init ex_device_nomap (Chan 4) (bo_zero\<lparr>bo_size := 0x4000\<rparr>) = (- EINVAL, ane', bo') \<and>
      trace ane' = [Ev_bo_init (Chan 4) 0x4000 0 1 0, Ev_mmap (Chan 4) 0x4000 0 False, Ev_bo_free (Chan 4) 1] \<and>
      bo_handle bo' = 0 \<and> bo_offset bo' = 0 \<and> bo_map bo' = None \<and> bo_size bo' = 0x4000)"
  using ane_bo_init_failure_paths [where bo = bo_zero and ane = ex_device_nomap and r = Btsp
      and err = 0 and h = 0 and off = 0]
    ane_bo_init_failure_paths [where bo = "bo_zero\<lparr>bo_size := 0x4000\<rparr>" and ane = ex_device_nomap
      and r = "Chan 4" and err = 0 and h = 1 and off = 0]
  by (simp add: bo_zero_def ex_device_nomap_def ex_device_def)

text \<open>
  Claim C6, as amended. \<open>ane_bo_free\<close> unmaps and then frees the device-side allocation
  exactly when the buffer object has a mapping; on a buffer object without a mapping
  (uninitialised, or allocated but never mapped) it makes no device call, and a second
  release after any release changes nothing.
\<close>

theorem ane_bo_free_guarded_by_map:
  "(bo_map bo \<noteq> None \<longrightarrow>
      (\<exists>ane'. ane_bo_free ane r bo = (ane', bo\<lparr>bo_map := None\<rparr>) \<and>
         trace ane' = trace ane @ [Ev_munmap r (bo_size bo), Ev_bo_free r (bo_handle bo)])) \<and>
   (bo_map bo = None \<longrightarrow> ane_bo_free ane r bo = (ane, bo)) \<and>
   (\<forall>ane' bo'. ane_bo_free ane r bo = (ane', bo') \<longrightarrow> ane_bo_free ane' r bo' = (ane', bo'))"
  by (auto simp add: ane_bo_free_def bo_free_def split: option.splits)

theorem ane_bo_free_guarded_by_map_witness:
  "(\<exists>ane'. ane_bo_free ex_device (Chan 4) \<lparr>bo_map = Some [1, 2], bo_size = 2, bo_handle = 9, bo_offset = 0\<rparr>
             = (ane', \<lparr>bo_map = None, bo_size = 2, bo_handle = 9, bo_offset = 0\<rparr>) \<and>
           trace ane' = [Ev_munmap (Chan 4) 2, Ev_bo_free (Chan 4) 9]) \<and>
   ane_bo_free ex_device (Chan 4) bo_zero = (ex_device, bo_zero)"
  using ane_bo_free_guarded_by_map [where bo = "\<lparr>bo_map = Some [1, 2], bo_size = 2, bo_handle = 9, bo_offset = 0\<rparr>"
      and ane = ex_device and r = "Chan 4"]
    ane_bo_free_guarded_by_map [where bo = bo_zero and ane = ex_device and r = "Chan 4"]
  by (simp add: bo_zero_def ex_device_def)

text \<open>
  The claim as stated fails: a buffer object allocated by \<open>bo_init\<close> and never mapped is
  not freed by \<open>ane_bo_free\<close>; the trace gains no call.
\<close>

theorem ane_bo_free_unmapped_counterexample:
  "case bo_init ex_device (Chan 4) (bo_zero\<lparr>bo_size := 0x4000\<rparr>) of
     (err, ane1, bo1) \<Rightarrow>
       err = 0 \<and> bo_handle bo1 = 1 \<and> bo_map bo1 = None \<and>
       trace ane1 = [Ev_bo_init (Chan 4) 0x4000 0 1 0] \<and>
       trace (fst (ane_bo_free ane1 (Chan 4) bo1)) = [Ev_bo_init (Chan 4) 0x4000 0 1 0]"
  by (simp add: bo_init_def ane_bo_free_def bo_zero_def ex_device_def)

lemma trace_proj_simps [simp]:
  "acquired [] = []" "released [] = []" "allocated [] = []" "freed [] = []"
  "acquired (e # tr) = mapped_of e @ acquired tr"
  "released (e # tr) = unmapped_of e @ released tr"
  "allocated (e # tr) = allocated_of e @ allocated tr"
  "freed (e # tr) = freed_of e @ freed tr"
  "acquired (tr @ tr') = acquired tr @ acquired tr'"
  "released (tr @ tr') = released tr @ released tr'"
  "allocated (tr @ tr') = allocated tr @ allocated tr'"
  "freed (tr @ tr') = freed tr @ freed tr'"
  "failures [] = []"
  "failures (e # tr) = (if step_failed e then [e] else []) @ failures tr"
  "failures (tr @ tr') = failures tr @ failures tr'"
  by (simp_all add: acquired_def released_def allocated_def freed_def failures_def)

lemma ane_bo_init_result:
  assumes "ane_bo_init ane r bo = (err, ane', bo')" and "bo_map bo = None"
  shows "bo_size bo' = bo_size bo \<and>
         (\<exists>new. trace ane' = trace ane @ new \<and> released new = [] \<and>
            (if err < 0
             then bo_map bo' = None \<and> acquired new = [] \<and> allocated new = freed new
             else err = 0 \<and> bo_size bo \<noteq> 0 \<and> acquired new = [r] \<and>
                  allocated new = [(r, bo_handle bo')] \<and> freed new = [] \<and>
                  failures new = [] \<and>
                  (\<exists>m. bo_map bo' = Some m \<and> length m = unat (bo_size bo))))"
  using assms
  by (auto simp add: ane_bo_init_def bo_init_def bo_mmap_def bo_free_def EINVAL_def
      split: prod.splits option.splits if_splits)

lemma ane_bo_free_result:
  assumes "ane_bo_free ane r bo = (ane', bo')"
  shows "bo' = bo\<lparr>bo_map := None\<rparr> \<and>
         (\<exists>new. trace ane' = trace ane @ new \<and> acquired new = [] \<and> allocated new = [] \<and>
            released new = (if bo_map bo = None then [] else [r]) \<and>
            freed new = (if bo_map bo = None then [] else [(r, bo_handle bo)]))"
  using assms
  by (auto simp add: ane_bo_free_def bo_free_def split: prod.splits option.splits)

subsection \<open>The allocation loop\<close>

declare chan_init_loop.simps [simp del] chan_free_loop.simps [simp del]

lemma chans_update_simps [simp]:
  "to_anec (nn\<lparr>chans := cs\<rparr>) = to_anec nn"
  "tile_size (nn\<lparr>chans := cs\<rparr>) = tile_size nn"
  "to_anec (nn\<lparr>btsp_chan := b\<rparr>) = to_anec nn"
  "tile_size (nn\<lparr>btsp_chan := b\<rparr>) = tile_size nn"
  by (simp_all add: to_anec_def tile_size_def fun_eq_iff)

lemma present_step:
  "lo < hi \<Longrightarrow> present T lo hi = (if T ! lo \<noteq> 0 then [lo] else []) @ present T (Suc lo) hi"
  by (simp add: present_def upt_conv_Cons)

lemma present_empty [simp]: "present T k k = []"
  by (simp add: present_def)

lemma chan_init_post_done:
  assumes "length cs = ANE_TILE_COUNT"
  shows "chan_init_post T ANE_TILE_COUNT tr cs 0 tr cs"
  unfolding chan_init_post_def using assms
  by (intro conjI allI impI refl exI [of _ "[]"] exI [of _ ANE_TILE_COUNT]) auto

lemma chan_init_post_skip:
  assumes post: "chan_init_post T (Suc bdx) tr cs err tr' cs'"
    and absent: "T ! bdx = 0"
  shows "chan_init_post T bdx tr cs err tr' cs'"
proof -
  from post [unfolded chan_init_post_def]
  obtain new k where len: "length cs' = ANE_TILE_COUNT"
    and low: "\<forall>i<Suc bdx. cs' ! i = cs ! i"
    and t: "tr' = tr @ new" and k: "Suc bdx \<le> k" "k \<le> ANE_TILE_COUNT"
    and e1: "err < 0 \<longrightarrow> k < ANE_TILE_COUNT \<and> T ! k \<noteq> 0"
    and e2: "\<not> err < 0 \<longrightarrow> err = 0 \<and> k = ANE_TILE_COUNT"
    and e3: "\<not> err < 0 \<longrightarrow> freed new = []"
    and e4: "\<not> err < 0 \<longrightarrow> failures new = []"
    and a: "acquired new = map Chan (present T (Suc bdx) k)" and rl: "released new = []"
    and h: "mset (allocated new) =
          mset (freed new) + mset (map (\<lambda>i. (Chan i, bo_handle (cs' ! i))) (present T (Suc bdx) k))"
    and m1: "\<forall>i. Suc bdx \<le> i \<and> i < k \<and> T ! i \<noteq> 0 \<longrightarrow>
           bo_size (cs' ! i) = tile_shift (T ! i) \<and>
           (\<exists>m. bo_map (cs' ! i) = Some m \<and> length m = unat (tile_shift (T ! i)))"
    and m2: "\<forall>i. Suc bdx \<le> i \<and> i < k \<and> T ! i = 0 \<longrightarrow> cs' ! i = cs ! i"
    and hi: "\<forall>i. k \<le> i \<and> i < ANE_TILE_COUNT \<longrightarrow> bo_map (cs' ! i) = None"
    and rest: "\<forall>i. k < i \<and> i < ANE_TILE_COUNT \<longrightarrow> cs' ! i = cs ! i"
    by blast
  have p: "present T bdx k = present T (Suc bdx) k"
    using absent k by (simp add: present_step)
  have m1': "\<forall>i. bdx \<le> i \<and> i < k \<and> T ! i \<noteq> 0 \<longrightarrow>
           bo_size (cs' ! i) = tile_shift (T ! i) \<and>
           (\<exists>m. bo_map (cs' ! i) = Some m \<and> length m = unat (tile_shift (T ! i)))"
  proof (intro allI impI)
    fix i assume i: "bdx \<le> i \<and> i < k \<and> T ! i \<noteq> 0"
    then have "i \<noteq> bdx" using absent by auto
    then have "Suc bdx \<le> i \<and> i < k \<and> T ! i \<noteq> 0" using i by simp
    then show "bo_size (cs' ! i) = tile_shift (T ! i) \<and>
           (\<exists>m. bo_map (cs' ! i) = Some m \<and> length m = unat (tile_shift (T ! i)))"
      using m1 by blast
  qed
  have m2': "\<forall>i. bdx \<le> i \<and> i < k \<and> T ! i = 0 \<longrightarrow> cs' ! i = cs ! i"
  proof (intro allI impI)
    fix i assume i: "bdx \<le> i \<and> i < k \<and> T ! i = 0"
    show "cs' ! i = cs ! i"
    proof (cases "i = bdx")
      case True
      then show ?thesis using low by simp
    next
      case False
      then have "Suc bdx \<le> i \<and> i < k \<and> T ! i = 0" using i by simp
      then show ?thesis using m2 by blast
    qed
  qed
  have low': "\<forall>i<bdx. cs' ! i = cs ! i" using low by simp
  have k': "bdx \<le> k" using k by simp
  have a': "acquired new = map Chan (present T bdx k)" using a p by simp
  have h': "mset (allocated new) =
          mset (freed new) + mset (map (\<lambda>i. (Chan i, bo_handle (cs' ! i))) (present T bdx k))"
    using h p by simp
  show ?thesis
    unfolding chan_init_post_def
    by (intro conjI exI [of _ new] exI [of _ k])
      (fact len low' t k' k(2) e1 e2 e3 e4 a' rl h' m1' m2' hi rest)+
qed

lemma chan_init_post_fail:
  assumes len: "length cs = ANE_TILE_COUNT" and lt: "bdx < ANE_TILE_COUNT"
    and pres: "T ! bdx \<noteq> 0" and neg: "err < 0"
    and fresh: "\<forall>i. bdx < i \<and> i < ANE_TILE_COUNT \<longrightarrow> bo_map (cs ! i) = None"
    and bo: "bo_map bo1 = None" "acquired new = []" "allocated new = freed new" "released new = []"
  shows "chan_init_post T bdx tr cs err (tr @ new) (cs[bdx := bo1])"
proof -
  have hi: "\<forall>i. bdx \<le> i \<and> i < ANE_TILE_COUNT \<longrightarrow> bo_map (cs[bdx := bo1] ! i) = None"
    using fresh bo(1) len by (simp add: nth_list_update)
  show ?thesis
    unfolding chan_init_post_def
    using len lt pres neg bo hi
    by (intro conjI exI [of _ new] exI [of _ bdx]) auto
qed

lemma chan_init_post_step:
  assumes post: "chan_init_post T (Suc bdx) (tr @ new1) (cs[bdx := bo1]) err tr' cs'"
    and len: "length cs = ANE_TILE_COUNT" and lt: "bdx < ANE_TILE_COUNT"
    and pres: "T ! bdx \<noteq> 0"
    and bo: "bo_size bo1 = tile_shift (T ! bdx)" "bo_map bo1 = Some m" "length m = unat (tile_shift (T ! bdx))"
      "acquired new1 = [Chan bdx]" "allocated new1 = [(Chan bdx, bo_handle bo1)]"
      "freed new1 = []" "released new1 = []" "failures new1 = []"
  shows "chan_init_post T bdx tr cs err tr' cs'"
proof -
  let ?cs1 = "cs[bdx := bo1]"
  from post [unfolded chan_init_post_def]
  obtain new k where len': "length cs' = ANE_TILE_COUNT"
    and low: "\<forall>i<Suc bdx. cs' ! i = ?cs1 ! i"
    and t: "tr' = (tr @ new1) @ new" and k: "Suc bdx \<le> k" "k \<le> ANE_TILE_COUNT"
    and e1: "err < 0 \<longrightarrow> k < ANE_TILE_COUNT \<and> T ! k \<noteq> 0"
    and e2: "\<not> err < 0 \<longrightarrow> err = 0 \<and> k = ANE_TILE_COUNT"
    and e3: "\<not> err < 0 \<longrightarrow> freed new = []"
    and e4: "\<not> err < 0 \<longrightarrow> failures new = []"
    and a: "acquired new = map Chan (present T (Suc bdx) k)" and rl: "released new = []"
    and h: "mset (allocated new) =
          mset (freed new) + mset (map (\<lambda>i. (Chan i, bo_handle (cs' ! i))) (present T (Suc bdx) k))"
    and m1: "\<forall>i. Suc bdx \<le> i \<and> i < k \<and> T ! i \<noteq> 0 \<longrightarrow>
           bo_size (cs' ! i) = tile_shift (T ! i) \<and>
           (\<exists>m. bo_map (cs' ! i) = Some m \<and> length m = unat (tile_shift (T ! i)))"
    and m2: "\<forall>i. Suc bdx \<le> i \<and> i < k \<and> T ! i = 0 \<longrightarrow> cs' ! i = ?cs1 ! i"
    and hi: "\<forall>i. k \<le> i \<and> i < ANE_TILE_COUNT \<longrightarrow> bo_map (cs' ! i) = None"
    and rest: "\<forall>i. k < i \<and> i < ANE_TILE_COUNT \<longrightarrow> cs' ! i = ?cs1 ! i"
    by blast
  have at: "cs' ! bdx = bo1" using low len lt by simp
  have p: "present T bdx k = bdx # present T (Suc bdx) k"
    using pres k by (simp add: present_step)
  have t': "tr' = tr @ (new1 @ new)" using t by simp
  have a': "acquired (new1 @ new) = map Chan (present T bdx k)" using a bo p by simp
  have rl': "released (new1 @ new) = []" using rl bo by simp
  have h': "mset (allocated (new1 @ new)) =
          mset (freed (new1 @ new)) + mset (map (\<lambda>i. (Chan i, bo_handle (cs' ! i))) (present T bdx k))"
    using h bo p at by simp
  have m1': "\<forall>i. bdx \<le> i \<and> i < k \<and> T ! i \<noteq> 0 \<longrightarrow>
           bo_size (cs' ! i) = tile_shift (T ! i) \<and>
           (\<exists>m. bo_map (cs' ! i) = Some m \<and> length m = unat (tile_shift (T ! i)))"
  proof (intro allI impI)
    fix i assume i: "bdx \<le> i \<and> i < k \<and> T ! i \<noteq> 0"
    show "bo_size (cs' ! i) = tile_shift (T ! i) \<and>
           (\<exists>m. bo_map (cs' ! i) = Some m \<and> length m = unat (tile_shift (T ! i)))"
    proof (cases "i = bdx")
      case True
      then show ?thesis using at bo by simp
    next
      case False
      then have "Suc bdx \<le> i \<and> i < k \<and> T ! i \<noteq> 0" using i by simp
      then show ?thesis using m1 by blast
    qed
  qed
  have m2': "\<forall>i. bdx \<le> i \<and> i < k \<and> T ! i = 0 \<longrightarrow> cs' ! i = cs ! i"
  proof (intro allI impI)
    fix i assume i: "bdx \<le> i \<and> i < k \<and> T ! i = 0"
    then have ne: "i \<noteq> bdx" using pres by auto
    then have "Suc bdx \<le> i \<and> i < k \<and> T ! i = 0" using i by simp
    then have "cs' ! i = ?cs1 ! i" using m2 by blast
    then show "cs' ! i = cs ! i" using ne by simp
  qed
  have rest': "\<forall>i. k < i \<and> i < ANE_TILE_COUNT \<longrightarrow> cs' ! i = cs ! i"
  proof (intro allI impI)
    fix i assume i: "k < i \<and> i < ANE_TILE_COUNT"
    then have "cs' ! i = ?cs1 ! i" using rest by blast
    moreover have "i \<noteq> bdx" using i k by simp
    ultimately show "cs' ! i = cs ! i" by simp
  qed
  have low': "\<forall>i<bdx. cs' ! i = cs ! i" using low by simp
  have k': "bdx \<le> k" using k by simp
  have e3': "\<not> err < 0 \<longrightarrow> freed (new1 @ new) = []" using e3 bo by simp
  have e4': "\<not> err < 0 \<longrightarrow> failures (new1 @ new) = []" using e4 bo by simp
  show ?thesis
    unfolding chan_init_post_def
    by (intro conjI exI [of _ "new1 @ new"] exI [of _ k])
      (fact len' low' t' k' k(2) e1 e2 e3' e4' a' rl' h' m1' m2' hi rest')+
qed

lemma chan_init_loop_frame:
  "chan_init_loop bdx ane nn = (err, ane', nn') \<Longrightarrow>
     model nn' = model nn \<and> btsp_chan nn' = btsp_chan nn"
proof (induction bdx ane nn arbitrary: err ane' nn' rule: chan_init_loop.induct)
  case (1 bdx ane nn)
  show ?case
  proof (cases "bdx < ANE_TILE_COUNT")
    case False
    then show ?thesis using "1.prems" by (simp add: chan_init_loop.simps [of bdx])
  next
    case lt: True
    show ?thesis
    proof (cases "tiles (to_anec nn) ! bdx \<noteq> 0")
      case False
      then have "chan_init_loop (Suc bdx) ane nn = (err, ane', nn')"
        using "1.prems" lt by (simp add: chan_init_loop.simps [of bdx])
      then show ?thesis using "1.IH"(2) [OF lt] False by simp
    next
      case True
      let ?bo0 = "(chans nn ! bdx)\<lparr>bo_size := tile_size nn bdx\<rparr>"
      obtain e ane1 bo1 where bi: "ane_bo_init ane (Chan bdx) ?bo0 = (e, ane1, bo1)"
        by (cases "ane_bo_init ane (Chan bdx) ?bo0") auto
      let ?nn1 = "nn\<lparr>chans := (chans nn)[bdx := bo1]\<rparr>"
      show ?thesis
      proof (cases "e < 0")
        case neg: True
        then have "nn' = ?nn1"
          using "1.prems" lt True bi by (simp add: chan_init_loop.simps [of bdx])
        then show ?thesis by simp
      next
        case pos: False
        then have rec: "chan_init_loop (Suc bdx) ane1 ?nn1 = (err, ane', nn')"
          using "1.prems" lt True bi by (simp add: chan_init_loop.simps [of bdx])
        have "model nn' = model ?nn1 \<and> btsp_chan nn' = btsp_chan ?nn1"
          by (rule "1.IH"(1) [OF lt True bi [symmetric] refl _ rec]) (use pos in simp)
        then show ?thesis by simp
      qed
    qed
  qed
qed

lemma chan_init_loop_result:
  assumes "chan_init_loop bdx ane nn = (err, ane', nn')"
    and "length (chans nn) = ANE_TILE_COUNT"
    and "\<forall>i. bdx \<le> i \<and> i < ANE_TILE_COUNT \<longrightarrow> bo_map (chans nn ! i) = None"
    and "bdx \<le> ANE_TILE_COUNT"
  shows "chan_init_post (tiles (to_anec nn)) bdx (trace ane) (chans nn) err (trace ane') (chans nn')"
  using assms
proof (induction bdx ane nn arbitrary: err ane' nn' rule: chan_init_loop.induct)
  case (1 bdx ane nn)
  let ?T = "tiles (to_anec nn)"
  show ?case
  proof (cases "bdx < ANE_TILE_COUNT")
    case False
    then have k: "bdx = ANE_TILE_COUNT" using "1.prems"(4) by simp
    have r: "err = 0" "ane' = ane" "nn' = nn"
      using "1.prems"(1) False by (simp_all add: chan_init_loop.simps [of bdx])
    show ?thesis unfolding r k using "1.prems"(2) by (rule chan_init_post_done)
  next
    case lt: True
    then have le: "Suc bdx \<le> ANE_TILE_COUNT" by simp
    show ?thesis
    proof (cases "?T ! bdx \<noteq> 0")
      case False
      then have rec: "chan_init_loop (Suc bdx) ane nn = (err, ane', nn')"
        using "1.prems"(1) lt by (simp add: chan_init_loop.simps [of bdx])
      have pre: "\<forall>i. Suc bdx \<le> i \<and> i < ANE_TILE_COUNT \<longrightarrow> bo_map (chans nn ! i) = None"
        using "1.prems"(3) by simp
      have "chan_init_post ?T (Suc bdx) (trace ane) (chans nn) err (trace ane') (chans nn')"
        by (rule "1.IH"(2) [OF lt _ rec "1.prems"(2) pre le]) (use False in simp)
      then show ?thesis by (rule chan_init_post_skip) (use False in simp)
    next
      case True
      let ?bo0 = "(chans nn ! bdx)\<lparr>bo_size := tile_size nn bdx\<rparr>"
      obtain e ane1 bo1 where bi: "ane_bo_init ane (Chan bdx) ?bo0 = (e, ane1, bo1)"
        by (cases "ane_bo_init ane (Chan bdx) ?bo0") auto
      have fresh: "bo_map ?bo0 = None" using "1.prems"(3) lt by simp
      from ane_bo_init_result [OF bi fresh]
      obtain new1 where sz0: "bo_size bo1 = bo_size ?bo0"
        and t1: "trace ane1 = trace ane @ new1" and rl1: "released new1 = []"
        and c0: "if e < 0
             then bo_map bo1 = None \<and> acquired new1 = [] \<and> allocated new1 = freed new1
             else e = 0 \<and> bo_size ?bo0 \<noteq> 0 \<and> acquired new1 = [Chan bdx] \<and>
                  allocated new1 = [(Chan bdx, bo_handle bo1)] \<and> freed new1 = [] \<and>
                  failures new1 = [] \<and>
                  (\<exists>m. bo_map bo1 = Some m \<and> length m = unat (bo_size ?bo0))"
        by blast
      have sz1: "bo_size bo1 = tile_shift (?T ! bdx)" using sz0 by (simp add: tile_size_def)
      let ?nn1 = "nn\<lparr>chans := (chans nn)[bdx := bo1]\<rparr>"
      show ?thesis
      proof (cases "e < 0")
        case neg: True
        have r: "err = e" "ane' = ane1" "nn' = ?nn1"
          using "1.prems"(1) lt True bi neg by (simp_all add: chan_init_loop.simps [of bdx])
        have "chan_init_post ?T bdx (trace ane) (chans nn) e (trace ane @ new1) ((chans nn)[bdx := bo1])"
          using "1.prems"(2) lt True neg
        proof (rule chan_init_post_fail)
          show "\<forall>i. bdx < i \<and> i < ANE_TILE_COUNT \<longrightarrow> bo_map (chans nn ! i) = None"
            using "1.prems"(3) by simp
        qed (use c0 neg rl1 in simp_all)
        then show ?thesis unfolding r using t1 by simp
      next
        case pos: False
        have rec: "chan_init_loop (Suc bdx) ane1 ?nn1 = (err, ane', nn')"
          using "1.prems"(1) lt True bi pos by (simp add: chan_init_loop.simps [of bdx])
        have len1: "length (chans ?nn1) = ANE_TILE_COUNT" using "1.prems"(2) by simp
        have pre: "\<forall>i. Suc bdx \<le> i \<and> i < ANE_TILE_COUNT \<longrightarrow> bo_map (chans ?nn1 ! i) = None"
          using "1.prems"(3) by simp
        have "chan_init_post (tiles (to_anec ?nn1)) (Suc bdx) (trace ane1) (chans ?nn1) err (trace ane') (chans nn')"
          by (rule "1.IH"(1) [OF lt True bi [symmetric] refl _ rec len1 pre le]) (use pos in simp)
        then have post: "chan_init_post ?T (Suc bdx) (trace ane @ new1) ((chans nn)[bdx := bo1]) err (trace ane') (chans nn')"
          using t1 by simp
        from c0 pos obtain m where m: "bo_map bo1 = Some m" "length m = unat (bo_size ?bo0)"
          and c: "acquired new1 = [Chan bdx]" "allocated new1 = [(Chan bdx, bo_handle bo1)]" "freed new1 = []"
          and nf: "failures new1 = []"
          by auto
        have lm: "length m = unat (tile_shift (?T ! bdx))" using m(2) by (simp add: tile_size_def)
        show ?thesis
          by (rule chan_init_post_step [OF post "1.prems"(2) lt True sz1 m(1) lm c rl1 nf])
      qed
    qed
  qed
qed

subsection \<open>The release loop\<close>

lemma mapped_idx_step:
  "lo < hi \<Longrightarrow> mapped_idx cs lo hi =
     (if bo_map (cs ! lo) \<noteq> None then [lo] else []) @ mapped_idx cs (Suc lo) hi"
  by (simp add: mapped_idx_def upt_conv_Cons)

lemma mapped_idx_empty [simp]: "mapped_idx cs k k = []"
  by (simp add: mapped_idx_def)

lemma mapped_idx_update:
  "bdx < lo \<Longrightarrow> mapped_idx (cs[bdx := b]) lo hi = mapped_idx cs lo hi"
  unfolding mapped_idx_def by (rule filter_cong) auto

lemma map_handle_update:
  "bdx < lo \<Longrightarrow>
     map (\<lambda>i. (Chan i, bo_handle (cs[bdx := b] ! i))) (mapped_idx cs lo hi)
     = map (\<lambda>i. (Chan i, bo_handle (cs ! i))) (mapped_idx cs lo hi)"
  unfolding mapped_idx_def by (rule map_cong) auto

lemma chan_free_loop_result:
  assumes "chan_free_loop bdx ane nn = (ane', nn')"
    and "length (chans nn) = ANE_TILE_COUNT"
    and "bdx \<le> ANE_TILE_COUNT"
  shows "model nn' = model nn \<and> btsp_chan nn' = btsp_chan nn \<and>
         length (chans nn') = ANE_TILE_COUNT \<and>
         (\<forall>i<bdx. chans nn' ! i = chans nn ! i) \<and>
         (\<forall>i. bdx \<le> i \<and> i < ANE_TILE_COUNT \<longrightarrow> chans nn' ! i = (chans nn ! i)\<lparr>bo_map := None\<rparr>) \<and>
         (\<exists>new. trace ane' = trace ane @ new \<and> acquired new = [] \<and> allocated new = [] \<and>
            released new = map Chan (mapped_idx (chans nn) bdx ANE_TILE_COUNT) \<and>
            freed new = map (\<lambda>i. (Chan i, bo_handle (chans nn ! i)))
                          (mapped_idx (chans nn) bdx ANE_TILE_COUNT))"
  using assms
proof (induction bdx ane nn arbitrary: ane' nn' rule: chan_free_loop.induct)
  case (1 bdx ane nn)
  show ?case
  proof (cases "bdx < ANE_TILE_COUNT")
    case False
    then have k: "bdx = ANE_TILE_COUNT" using "1.prems"(3) by simp
    have r: "ane' = ane" "nn' = nn"
      using "1.prems"(1) False by (simp_all add: chan_free_loop.simps [of bdx])
    show ?thesis unfolding r using k "1.prems"(2)
      by (intro conjI exI [of _ "[]"]) auto
  next
    case lt: True
    obtain ane1 bo1 where bf: "ane_bo_free ane (Chan bdx) (chans nn ! bdx) = (ane1, bo1)"
      by (cases "ane_bo_free ane (Chan bdx) (chans nn ! bdx)") auto
    let ?nn1 = "nn\<lparr>chans := (chans nn)[bdx := bo1]\<rparr>"
    from ane_bo_free_result [OF bf]
    obtain new1 where bo1: "bo1 = (chans nn ! bdx)\<lparr>bo_map := None\<rparr>"
      and t1: "trace ane1 = trace ane @ new1" and a1: "acquired new1 = []" "allocated new1 = []"
      and r1: "released new1 = (if bo_map (chans nn ! bdx) = None then [] else [Chan bdx])"
      and f1: "freed new1 = (if bo_map (chans nn ! bdx) = None then []
                             else [(Chan bdx, bo_handle (chans nn ! bdx))])"
      by blast
    have rec: "chan_free_loop (Suc bdx) ane1 ?nn1 = (ane', nn')"
      using "1.prems"(1) lt bf by (simp add: chan_free_loop.simps [of bdx])
    have len1: "length (chans ?nn1) = ANE_TILE_COUNT" using "1.prems"(2) by simp
    have le: "Suc bdx \<le> ANE_TILE_COUNT" using lt by simp
    from "1.IH" [OF lt bf [symmetric] rec len1 le]
    obtain new2 where fr: "model nn' = model ?nn1" "btsp_chan nn' = btsp_chan ?nn1"
      and len': "length (chans nn') = ANE_TILE_COUNT"
      and low: "\<forall>i<Suc bdx. chans nn' ! i = chans ?nn1 ! i"
      and hi: "\<forall>i. Suc bdx \<le> i \<and> i < ANE_TILE_COUNT \<longrightarrow> chans nn' ! i = (chans ?nn1 ! i)\<lparr>bo_map := None\<rparr>"
      and t2: "trace ane' = trace ane1 @ new2" and a2: "acquired new2 = []" "allocated new2 = []"
      and r2: "released new2 = map Chan (mapped_idx (chans ?nn1) (Suc bdx) ANE_TILE_COUNT)"
      and f2: "freed new2 = map (\<lambda>i. (Chan i, bo_handle (chans ?nn1 ! i)))
                          (mapped_idx (chans ?nn1) (Suc bdx) ANE_TILE_COUNT)"
      by blast
    have low': "\<forall>i<bdx. chans nn' ! i = chans nn ! i" using low by simp
    have hi': "\<forall>i. bdx \<le> i \<and> i < ANE_TILE_COUNT \<longrightarrow> chans nn' ! i = (chans nn ! i)\<lparr>bo_map := None\<rparr>"
    proof (intro allI impI)
      fix i assume i: "bdx \<le> i \<and> i < ANE_TILE_COUNT"
      show "chans nn' ! i = (chans nn ! i)\<lparr>bo_map := None\<rparr>"
      proof (cases "i = bdx")
        case True
        then show ?thesis using low bo1 "1.prems"(2) lt by simp
      next
        case False
        then have "Suc bdx \<le> i \<and> i < ANE_TILE_COUNT" using i by simp
        then have "chans nn' ! i = (chans ?nn1 ! i)\<lparr>bo_map := None\<rparr>" using hi by blast
        then show ?thesis using False by simp
      qed
    qed
    have t': "trace ane' = trace ane @ (new1 @ new2)" using t1 t2 by simp
    have r': "released (new1 @ new2) = map Chan (mapped_idx (chans nn) bdx ANE_TILE_COUNT)"
      using r1 r2 lt by (simp add: mapped_idx_step [of bdx] mapped_idx_update)
    have f': "freed (new1 @ new2) = map (\<lambda>i. (Chan i, bo_handle (chans nn ! i)))
                          (mapped_idx (chans nn) bdx ANE_TILE_COUNT)"
      using f1 f2 lt by (simp add: mapped_idx_step [of bdx] mapped_idx_update map_handle_update)
    have a': "acquired (new1 @ new2) = []" "allocated (new1 @ new2) = []" using a1 a2 by simp_all
    have fr': "model nn' = model nn" "btsp_chan nn' = btsp_chan nn" using fr by simp_all
    show ?thesis
      by (intro conjI exI [of _ "new1 @ new2"]) (fact fr' len' low' hi' t' a' r' f')+
  qed
qed

lemma ane_chan_free_result:
  assumes "ane_chan_free ane nn = (ane', nn')" and "length (chans nn) = ANE_TILE_COUNT"
  shows "model nn' = model nn \<and> length (chans nn') = ANE_TILE_COUNT \<and>
         bo_map (btsp_chan nn') = None \<and>
         (\<forall>i<ANE_TILE_COUNT. bo_map (chans nn' ! i) = None) \<and>
         (\<exists>new. trace ane' = trace ane @ new \<and> acquired new = [] \<and> allocated new = [] \<and>
            released new = (if bo_map (btsp_chan nn) = None then [] else [Btsp])
                           @ map Chan (mapped_idx (chans nn) 0 ANE_TILE_COUNT) \<and>
            freed new = (if bo_map (btsp_chan nn) = None then [] else [(Btsp, bo_handle (btsp_chan nn))])
                        @ map (\<lambda>i. (Chan i, bo_handle (chans nn ! i)))
                            (mapped_idx (chans nn) 0 ANE_TILE_COUNT))"
proof -
  obtain ane1 bo1 where bf: "ane_bo_free ane Btsp (btsp_chan nn) = (ane1, bo1)"
    by (cases "ane_bo_free ane Btsp (btsp_chan nn)") auto
  let ?nn1 = "nn\<lparr>btsp_chan := bo1\<rparr>"
  from ane_bo_free_result [OF bf]
  obtain new1 where bo1: "bo1 = (btsp_chan nn)\<lparr>bo_map := None\<rparr>"
    and t1: "trace ane1 = trace ane @ new1" and a1: "acquired new1 = []" "allocated new1 = []"
    and r1: "released new1 = (if bo_map (btsp_chan nn) = None then [] else [Btsp])"
    and f1: "freed new1 = (if bo_map (btsp_chan nn) = None then []
                           else [(Btsp, bo_handle (btsp_chan nn))])"
    by blast
  have rec: "chan_free_loop 0 ane1 ?nn1 = (ane', nn')"
    using assms(1) bf by (simp add: ane_chan_free_def)
  have len1: "length (chans ?nn1) = ANE_TILE_COUNT" using assms(2) by simp
  from chan_free_loop_result [OF rec len1]
  obtain new2 where fr: "model nn' = model ?nn1" "btsp_chan nn' = btsp_chan ?nn1"
    and len': "length (chans nn') = ANE_TILE_COUNT"
    and hi: "\<forall>i. 0 \<le> i \<and> i < ANE_TILE_COUNT \<longrightarrow> chans nn' ! i = (chans ?nn1 ! i)\<lparr>bo_map := None\<rparr>"
    and t2: "trace ane' = trace ane1 @ new2" and a2: "acquired new2 = []" "allocated new2 = []"
    and r2: "released new2 = map Chan (mapped_idx (chans ?nn1) 0 ANE_TILE_COUNT)"
    and f2: "freed new2 = map (\<lambda>i. (Chan i, bo_handle (chans ?nn1 ! i)))
                          (mapped_idx (chans ?nn1) 0 ANE_TILE_COUNT)"
    by auto
  have m: "model nn' = model nn" using fr by simp
  have b: "bo_map (btsp_chan nn') = None" using fr bo1 by simp
  have c: "\<forall>i<ANE_TILE_COUNT. bo_map (chans nn' ! i) = None" using hi by simp
  have t': "trace ane' = trace ane @ (new1 @ new2)" using t1 t2 by simp
  have a': "acquired (new1 @ new2) = []" "allocated (new1 @ new2) = []" using a1 a2 by simp_all
  have r': "released (new1 @ new2) = (if bo_map (btsp_chan nn) = None then [] else [Btsp])
                           @ map Chan (mapped_idx (chans nn) 0 ANE_TILE_COUNT)"
    using r1 r2 by simp
  have f': "freed (new1 @ new2) = (if bo_map (btsp_chan nn) = None then [] else [(Btsp, bo_handle (btsp_chan nn))])
                        @ map (\<lambda>i. (Chan i, bo_handle (chans nn ! i)))
                            (mapped_idx (chans nn) 0 ANE_TILE_COUNT)"
    using f1 f2 by simp
  show ?thesis
    by (intro conjI exI [of _ "new1 @ new2"]) (fact m len' b c t' a' r' f')+
qed

lemma mapped_idx_present:
  assumes k: "k \<le> n"
    and m1: "\<forall>i. i < k \<and> T ! i \<noteq> 0 \<longrightarrow> bo_map (cs' ! i) \<noteq> None"
    and m2: "\<forall>i. i < k \<and> T ! i = 0 \<longrightarrow> bo_map (cs' ! i) = None"
    and hi: "\<forall>i. k \<le> i \<and> i < n \<longrightarrow> bo_map (cs' ! i) = None"
  shows "mapped_idx cs' 0 n = present T 0 k"
proof -
  have split: "[0..<n] = [0..<k] @ [k..<n]" using k
    by (metis le0 le_iff_add upt_add_eq_append)
  have a: "filter (\<lambda>i. bo_map (cs' ! i) \<noteq> None) [0..<k] = filter (\<lambda>i. T ! i \<noteq> 0) [0..<k]"
    by (rule filter_cong) (use m1 m2 in auto)
  have b: "filter (\<lambda>i. bo_map (cs' ! i) \<noteq> None) [k..<n] = []"
    using hi by (auto simp: filter_empty_conv)
  show ?thesis unfolding mapped_idx_def present_def split using a b by simp
qed

subsection \<open>Rollback\<close>

lemma nn_zero_simps [simp]:
  "model (nn_zero m) = m" "btsp_chan (nn_zero m) = bo_zero"
  "length (chans (nn_zero m)) = ANE_TILE_COUNT"
  "i < ANE_TILE_COUNT \<Longrightarrow> chans (nn_zero m) ! i = bo_zero"
  "to_anec (nn_zero m) = model_anec m"
  "bo_map bo_zero = None" "bo_size bo_zero = 0" "bo_handle bo_zero = 0" "bo_offset bo_zero = 0"
  by (simp_all add: nn_zero_def bo_zero_def to_anec_def)

lemma chan_init_loop_zero:
  assumes "chan_init_loop 0 ane (nn_zero m) = (e, ane1, nn1)"
  shows "model nn1 = m \<and> btsp_chan nn1 = bo_zero \<and>
         chan_init_post (tiles (model_anec m)) 0 (trace ane) (chans (nn_zero m)) e (trace ane1) (chans nn1)"
proof -
  have "chan_init_post (tiles (to_anec (nn_zero m))) 0 (trace ane) (chans (nn_zero m)) e
          (trace ane1) (chans nn1)"
    by (rule chan_init_loop_result [OF assms]) simp_all
  then show ?thesis using chan_init_loop_frame [OF assms] by simp
qed

lemma ane_chan_init_failed:
  assumes init: "ane_chan_init fifo_nid ane (nn_zero m) = Some (err, ane', nn')"
    and neg: "err < 0"
    and wf: "length (tiles (model_anec m)) = ANE_TILE_COUNT"
  shows "\<exists>new k. trace ane' = trace ane @ new \<and> k \<le> ANE_TILE_COUNT \<and>
           (k < ANE_TILE_COUNT \<longrightarrow> tiles (model_anec m) ! k \<noteq> 0) \<and>
           acquired new = map Chan (present (tiles (model_anec m)) 0 k) \<and>
           released new = map Chan (present (tiles (model_anec m)) 0 k) \<and>
           mset (freed new) = mset (allocated new) \<and>
           (\<forall>i<ANE_TILE_COUNT. bo_map (chans nn' ! i) = None) \<and>
           bo_map (btsp_chan nn') = None \<and>
           (\<forall>zmalloc_ok. \<exists>ane''. ane_init_from_model fifo_nid (fd ane) zmalloc_ok ane m = Some (ane'', None))"
proof -
  let ?T = "tiles (model_anec m)"
  let ?cs0 = "chans (nn_zero m)"
  obtain e1 ane1 nn1 where loop: "chan_init_loop 0 ane (nn_zero m) = (e1, ane1, nn1)"
    by (cases "chan_init_loop 0 ane (nn_zero m)") auto
  from chan_init_loop_zero [OF loop]
  have fr: "model nn1 = m" "btsp_chan nn1 = bo_zero"
    and post: "chan_init_post ?T 0 (trace ane) ?cs0 e1 (trace ane1) (chans nn1)" by simp_all
  from post [unfolded chan_init_post_def]
  obtain new1 k where len1: "length (chans nn1) = ANE_TILE_COUNT"
    and t1: "trace ane1 = trace ane @ new1" and k: "k \<le> ANE_TILE_COUNT"
    and e1: "e1 < 0 \<longrightarrow> k < ANE_TILE_COUNT \<and> ?T ! k \<noteq> 0"
    and e2: "\<not> e1 < 0 \<longrightarrow> e1 = 0 \<and> k = ANE_TILE_COUNT"
    and a1: "acquired new1 = map Chan (present ?T 0 k)" and rl1: "released new1 = []"
    and h1: "mset (allocated new1) =
          mset (freed new1) + mset (map (\<lambda>i. (Chan i, bo_handle (chans nn1 ! i))) (present ?T 0 k))"
    and m1: "\<forall>i. 0 \<le> i \<and> i < k \<and> ?T ! i \<noteq> 0 \<longrightarrow>
           bo_size (chans nn1 ! i) = tile_shift (?T ! i) \<and>
           (\<exists>mp. bo_map (chans nn1 ! i) = Some mp \<and> length mp = unat (tile_shift (?T ! i)))"
    and m2: "\<forall>i. 0 \<le> i \<and> i < k \<and> ?T ! i = 0 \<longrightarrow> chans nn1 ! i = ?cs0 ! i"
    and hi: "\<forall>i. k \<le> i \<and> i < ANE_TILE_COUNT \<longrightarrow> bo_map (chans nn1 ! i) = None"
    by blast
  have mp: "mapped_idx (chans nn1) 0 ANE_TILE_COUNT = present ?T 0 k"
  proof (rule mapped_idx_present [OF k _ _ hi])
    show "\<forall>i. i < k \<and> ?T ! i \<noteq> 0 \<longrightarrow> bo_map (chans nn1 ! i) \<noteq> None"
      using m1 by auto
    show "\<forall>i. i < k \<and> ?T ! i = 0 \<longrightarrow> bo_map (chans nn1 ! i) = None"
      using m2 k by auto
  qed
  have main: "\<exists>new. trace ane' = trace ane @ new \<and>
           (k < ANE_TILE_COUNT \<longrightarrow> ?T ! k \<noteq> 0) \<and>
           acquired new = map Chan (present ?T 0 k) \<and>
           released new = map Chan (present ?T 0 k) \<and>
           mset (freed new) = mset (allocated new) \<and>
           (\<forall>i<ANE_TILE_COUNT. bo_map (chans nn' ! i) = None) \<and>
           bo_map (btsp_chan nn') = None"
  proof (cases "e1 < 0")
    case True
    obtain ane2 nn2 where cf: "ane_chan_free ane1 nn1 = (ane2, nn2)"
      by (cases "ane_chan_free ane1 nn1") auto
    have r: "err = e1" "ane' = ane2" "nn' = nn2"
      using init loop True cf by (simp_all add: ane_chan_init_def)
    from ane_chan_free_result [OF cf len1]
    obtain new2 where b: "bo_map (btsp_chan nn2) = None"
      and c: "\<forall>i<ANE_TILE_COUNT. bo_map (chans nn2 ! i) = None"
      and t2: "trace ane2 = trace ane1 @ new2" and a2: "acquired new2 = []" "allocated new2 = []"
      and r2: "released new2 = (if bo_map (btsp_chan nn1) = None then [] else [Btsp])
                           @ map Chan (mapped_idx (chans nn1) 0 ANE_TILE_COUNT)"
      and f2: "freed new2 = (if bo_map (btsp_chan nn1) = None then [] else [(Btsp, bo_handle (btsp_chan nn1))])
                        @ map (\<lambda>i. (Chan i, bo_handle (chans nn1 ! i)))
                            (mapped_idx (chans nn1) 0 ANE_TILE_COUNT)"
      by blast
    have t': "trace ane2 = trace ane @ (new1 @ new2)" using t1 t2 by simp
    have a': "acquired (new1 @ new2) = map Chan (present ?T 0 k)" using a1 a2 by simp
    have r': "released (new1 @ new2) = map Chan (present ?T 0 k)" using rl1 r2 fr mp by simp
    have f': "mset (freed (new1 @ new2)) = mset (allocated (new1 @ new2))"
      using h1 f2 a2 fr mp by simp
    have kk: "k < ANE_TILE_COUNT \<longrightarrow> ?T ! k \<noteq> 0" using e1 True by simp
    show ?thesis unfolding r
      by (intro conjI exI [of _ "new1 @ new2"]) (fact t' kk a' r' f' c b)+
  next
    case False
    then have k64: "k = ANE_TILE_COUNT" and e10: "e1 = 0" using e2 by simp_all
    let ?bo0 = "(btsp_chan nn1)\<lparr>bo_size := tile_align (td_size (to_anec nn1))\<rparr>"
    obtain eb aneb bob where bi: "ane_bo_init ane1 Btsp ?bo0 = (eb, aneb, bob)"
      by (cases "ane_bo_init ane1 Btsp ?bo0") auto
    have fresh: "bo_map ?bo0 = None" using fr by simp
    from ane_bo_init_result [OF bi fresh]
    obtain newb where tb: "trace aneb = trace ane1 @ newb" and rlb: "released newb = []"
      and cb: "if eb < 0
             then bo_map bob = None \<and> acquired newb = [] \<and> allocated newb = freed newb
             else eb = 0 \<and> bo_size ?bo0 \<noteq> 0 \<and> acquired newb = [Btsp] \<and>
                  allocated newb = [(Btsp, bo_handle bob)] \<and> freed newb = [] \<and>
                  failures newb = [] \<and>
                  (\<exists>mp. bo_map bob = Some mp \<and> length mp = unat (bo_size ?bo0))"
      by blast
    have ebneg: "eb < 0"
    proof (rule ccontr)
      assume "\<not> eb < 0"
      then have "err = 0" using init loop False bi
        by (auto simp add: ane_chan_init_def split: option.splits)
      then show False using neg by simp
    qed
    let ?nnb = "nn1\<lparr>btsp_chan := bob\<rparr>"
    obtain ane3 nn3 where cf: "ane_chan_free aneb ?nnb = (ane3, nn3)"
      by (cases "ane_chan_free aneb ?nnb") auto
    have r: "err = eb" "ane' = ane3" "nn' = nn3"
      using init loop False bi ebneg cf by (simp_all add: ane_chan_init_def)
    have lenb: "length (chans ?nnb) = ANE_TILE_COUNT" using len1 by simp
    from ane_chan_free_result [OF cf lenb]
    obtain new3 where b: "bo_map (btsp_chan nn3) = None"
      and c: "\<forall>i<ANE_TILE_COUNT. bo_map (chans nn3 ! i) = None"
      and t3: "trace ane3 = trace aneb @ new3" and a3: "acquired new3 = []" "allocated new3 = []"
      and r3: "released new3 = (if bo_map (btsp_chan ?nnb) = None then [] else [Btsp])
                           @ map Chan (mapped_idx (chans ?nnb) 0 ANE_TILE_COUNT)"
      and f3: "freed new3 = (if bo_map (btsp_chan ?nnb) = None then [] else [(Btsp, bo_handle (btsp_chan ?nnb))])
                        @ map (\<lambda>i. (Chan i, bo_handle (chans ?nnb ! i)))
                            (mapped_idx (chans ?nnb) 0 ANE_TILE_COUNT)"
      by blast
    have bn: "bo_map bob = None" and ab: "acquired newb = []" and fb: "allocated newb = freed newb"
      using cb ebneg by simp_all
    have t': "trace ane3 = trace ane @ (new1 @ newb @ new3)" using t1 tb t3 by simp
    have a': "acquired (new1 @ newb @ new3) = map Chan (present ?T 0 k)" using a1 ab a3 by simp
    have r': "released (new1 @ newb @ new3) = map Chan (present ?T 0 k)"
      using rl1 rlb r3 bn mp by simp
    have f': "mset (freed (new1 @ newb @ new3)) = mset (allocated (new1 @ newb @ new3))"
      using h1 fb f3 a3 bn mp by simp
    have kk: "k < ANE_TILE_COUNT \<longrightarrow> ?T ! k \<noteq> 0" using k64 by simp
    show ?thesis unfolding r
      by (intro conjI exI [of _ "new1 @ newb @ new3"]) (fact t' kk a' r' f' c b)+
  qed
  have caller: "\<exists>ane''. ane_init_from_model fifo_nid (fd ane) zmalloc_ok ane m = Some (ane'', None)"
    for zmalloc_ok
    using init neg by (simp add: ane_init_from_model_def)
  from main obtain new where "trace ane' = trace ane @ new \<and>
           (k < ANE_TILE_COUNT \<longrightarrow> ?T ! k \<noteq> 0) \<and>
           acquired new = map Chan (present ?T 0 k) \<and>
           released new = map Chan (present ?T 0 k) \<and>
           mset (freed new) = mset (allocated new) \<and>
           (\<forall>i<ANE_TILE_COUNT. bo_map (chans nn' ! i) = None) \<and>
           bo_map (btsp_chan nn') = None" by blast
  then show ?thesis using k caller by blast
qed

section \<open>Channel-set initialisation: proofs\<close>

lemma memcpy_zero:
  assumes "memcpy d 0 s 0 n = Some d'"
  shows "length d' = length d \<and> n \<le> length s \<and> n \<le> length d \<and> d' = take n s @ drop n d"
  using assms by (auto simp add: memcpy_def split: if_splits)

lemma set_nid_result:
  assumes "set_nid td nid = Some td'"
  shows "4 \<le> length td \<and> length td' = length td \<and>
         word_of_bytes td' = (word_of_bytes td AND 0xf00ffff) OR push_bit 16 (nid AND 0xff)"
proof -
  let ?h = "(word_of_bytes td AND 0xf00ffff) OR push_bit 16 (nid AND 0xff)"
  have len: "4 \<le> length td" using assms by (auto simp add: set_nid_def split: if_splits)
  have m: "memcpy td 0 (bytes_of_word ?h) 0 4 = Some td'"
    using assms len by (simp add: set_nid_def Let_def)
  have l4: "length (bytes_of_word ?h) = 4" by (simp add: bytes_of_word_def)
  from memcpy_zero [OF m] have "td' = take 4 (bytes_of_word ?h) @ drop 4 td"
    and l: "length td' = length td" by simp_all
  then have "td' = bytes_of_word ?h @ drop 4 td" using l4 by simp
  then have "word_of_bytes td' = ?h" by (simp only: word_of_bytes_of_word)
  then show ?thesis using len l by simp
qed

lemma set_btsp_and_command_result:
  assumes "set_btsp_and_command fifo_nid nn = Some nn2"
  shows "\<exists>m0 m0' mb mb' mb''.
           bo_map (chans nn ! 0) = Some m0 \<and>
           memcpy m0 0 (model_data (model nn)) 0 (unat (anec_size (to_anec nn))) = Some m0' \<and>
           bo_map (btsp_chan nn) = Some mb \<and>
           memcpy mb 0 (model_data (model nn)) 0 (unat (td_size (to_anec nn))) = Some mb' \<and>
           set_nid mb' fifo_nid = Some mb'' \<and>
           nn2 = nn\<lparr>chans := (chans nn)[0 := (chans nn ! 0)\<lparr>bo_map := Some m0'\<rparr>],
                    btsp_chan := (btsp_chan nn)\<lparr>bo_map := Some mb''\<rparr>\<rparr>"
  using assms by (auto simp add: set_btsp_and_command_def Let_def split: option.splits)

lemma ane_chan_init_success:
  assumes init: "ane_chan_init fifo_nid ane (nn_zero m) = Some (err, ane', nn')"
    and ok: "\<not> err < 0"
  shows "\<exists>ane1 nn1 bob m0 m0' mb mb' mb''.
           chan_init_loop 0 ane (nn_zero m) = (0, ane1, nn1) \<and>
           ane_bo_init ane1 Btsp (bo_zero\<lparr>bo_size := tile_align (td_size (model_anec m))\<rparr>)
             = (0, ane', bob) \<and>
           bo_map (chans nn1 ! 0) = Some m0 \<and>
           memcpy m0 0 (model_data m) 0 (unat (anec_size (model_anec m))) = Some m0' \<and>
           bo_map bob = Some mb \<and>
           memcpy mb 0 (model_data m) 0 (unat (td_size (model_anec m))) = Some mb' \<and>
           set_nid mb' fifo_nid = Some mb'' \<and>
           nn' = nn1\<lparr>chans := (chans nn1)[0 := (chans nn1 ! 0)\<lparr>bo_map := Some m0'\<rparr>],
                     btsp_chan := bob\<lparr>bo_map := Some mb''\<rparr>\<rparr> \<and>
           err = 0"
proof -
  obtain e1 ane1 nn1 where loop: "chan_init_loop 0 ane (nn_zero m) = (e1, ane1, nn1)"
    by (cases "chan_init_loop 0 ane (nn_zero m)") auto
  from chan_init_loop_zero [OF loop]
  have fr: "model nn1 = m" "btsp_chan nn1 = bo_zero"
    and post: "chan_init_post (tiles (model_anec m)) 0 (trace ane) (chans (nn_zero m)) e1 (trace ane1) (chans nn1)"
    by simp_all
  have an: "to_anec nn1 = model_anec m" using fr by (simp add: to_anec_def)
  have e1: "\<not> e1 < 0"
  proof
    assume "e1 < 0"
    then have "err = e1" using init loop by (auto simp add: ane_chan_init_def split: prod.splits)
    then show False using ok \<open>e1 < 0\<close> by simp
  qed
  then have e10: "e1 = 0" using post by (auto simp add: chan_init_post_def)
  let ?bo0 = "bo_zero\<lparr>bo_size := tile_align (td_size (model_anec m))\<rparr>"
  obtain eb aneb bob where bi: "ane_bo_init ane1 Btsp ?bo0 = (eb, aneb, bob)"
    by (cases "ane_bo_init ane1 Btsp ?bo0") auto
  have eb: "\<not> eb < 0"
  proof
    assume "eb < 0"
    then have "err = eb" using init loop e1 bi fr an
      by (auto simp add: ane_chan_init_def split: prod.splits)
    then show False using ok \<open>eb < 0\<close> by simp
  qed
  from ane_bo_init_result [OF bi] eb have eb0: "eb = 0" by auto
  from init loop e1 bi eb fr an
  obtain nn2 where sb: "set_btsp_and_command fifo_nid (nn1\<lparr>btsp_chan := bob\<rparr>) = Some nn2"
    and r: "err = 0" "ane' = aneb" "nn' = nn2"
    by (auto simp add: ane_chan_init_def split: option.splits)
  from set_btsp_and_command_result [OF sb] fr an
  obtain m0 m0' mb mb' mb'' where
    "bo_map (chans nn1 ! 0) = Some m0"
    "memcpy m0 0 (model_data m) 0 (unat (anec_size (model_anec m))) = Some m0'"
    "bo_map bob = Some mb"
    "memcpy mb 0 (model_data m) 0 (unat (td_size (model_anec m))) = Some mb'"
    "set_nid mb' fifo_nid = Some mb''"
    "nn2 = nn1\<lparr>chans := (chans nn1)[0 := (chans nn1 ! 0)\<lparr>bo_map := Some m0'\<rparr>],
                     btsp_chan := bob\<lparr>bo_map := Some mb''\<rparr>\<rparr>"
    by auto
  then show ?thesis using loop e10 bi eb0 r by blast
qed

text \<open>
  Claim C3. Consider any completed run of \<open>ane_chan_init\<close> on a zeroed channel set. If an
  allocate or map step failed during the run, the result is a negative code. Whenever the
  result is negative there is a position \<open>k\<close> (a present channel, or \<open>ANE_TILE_COUNT\<close> for
  the bootstrap buffer) such that the buffers mapped during the call are exactly the
  present channels before \<open>k\<close>, the buffers unmapped are exactly the same channels, the
  handles freed are the handles allocated, no mapping is left in the channel set, and
  \<open>ane_init_from_model\<close> returns a null channel set.
\<close>

theorem ane_chan_init_rollback:
  assumes init: "ane_chan_init fifo_nid ane (nn_zero m) = Some (err, ane', nn')"
    and wf: "length (tiles (model_anec m)) = ANE_TILE_COUNT"
  shows "\<exists>new. trace ane' = trace ane @ new \<and>
           (failures new \<noteq> [] \<longrightarrow> err < 0) \<and>
           (err < 0 \<longrightarrow>
              (\<exists>k. k \<le> ANE_TILE_COUNT \<and>
                 (k < ANE_TILE_COUNT \<longrightarrow> tiles (model_anec m) ! k \<noteq> 0) \<and>
                 acquired new = map Chan (present (tiles (model_anec m)) 0 k) \<and>
                 released new = map Chan (present (tiles (model_anec m)) 0 k) \<and>
                 mset (freed new) = mset (allocated new) \<and>
                 (\<forall>i<ANE_TILE_COUNT. bo_map (chans nn' ! i) = None) \<and>
                 bo_map (btsp_chan nn') = None \<and>
                 (\<forall>zmalloc_ok. \<exists>ane''.
                    ane_init_from_model fifo_nid (fd ane) zmalloc_ok ane m = Some (ane'', None))))"
proof (cases "err < 0")
  case True
  from ane_chan_init_failed [OF init True wf]
  obtain new k where "trace ane' = trace ane @ new" and
    "k \<le> ANE_TILE_COUNT \<and>
           (k < ANE_TILE_COUNT \<longrightarrow> tiles (model_anec m) ! k \<noteq> 0) \<and>
           acquired new = map Chan (present (tiles (model_anec m)) 0 k) \<and>
           released new = map Chan (present (tiles (model_anec m)) 0 k) \<and>
           mset (freed new) = mset (allocated new) \<and>
           (\<forall>i<ANE_TILE_COUNT. bo_map (chans nn' ! i) = None) \<and>
           bo_map (btsp_chan nn') = None \<and>
           (\<forall>zmalloc_ok. \<exists>ane''. ane_init_from_model fifo_nid (fd ane) zmalloc_ok ane m = Some (ane'', None))"
    by blast
  then show ?thesis using True by blast
next
  case False
  let ?bo0 = "bo_zero\<lparr>bo_size := tile_align (td_size (model_anec m))\<rparr>"
  from ane_chan_init_success [OF init False]
  obtain ane1 nn1 bob where
    loop: "chan_init_loop 0 ane (nn_zero m) = (0, ane1, nn1)"
    and bi: "ane_bo_init ane1 Btsp ?bo0 = (0, ane', bob)"
    by blast
  from chan_init_loop_zero [OF loop]
  have post: "chan_init_post (tiles (model_anec m)) 0 (trace ane) (chans (nn_zero m)) 0
                (trace ane1) (chans nn1)"
    by simp
  from post [unfolded chan_init_post_def]
  obtain new1 where t1: "trace ane1 = trace ane @ new1" and f1: "failures new1 = []"
    by auto
  have fresh: "bo_map ?bo0 = None" by simp
  from ane_bo_init_result [OF bi fresh]
  obtain newb where tb: "trace ane' = trace ane1 @ newb" and fb: "failures newb = []"
    by auto
  have "trace ane' = trace ane @ (new1 @ newb)" using t1 tb by simp
  moreover have "failures (new1 @ newb) = []" using f1 fb by simp
  ultimately show ?thesis using False by blast
qed

lemma ex_fail_loop:
  "fst (chan_init_loop 0 (ex_device_fail 3) (nn_zero ex_model)) = - 22"
  by (simp add: chan_init_loop.simps ane_bo_init_def bo_init_def bo_mmap_def bo_free_def
      ex_device_fail_def ex_device_def ex_model_def ex_anec_def nn_zero_def bo_zero_def
      to_anec_def tile_size_def tile_shift_def TILE_SHIFT_def ANE_TILE_COUNT_def EINVAL_def emit_def
      del: upt.simps)

theorem ane_chan_init_rollback_witness:
  "\<exists>err ane' nn'. ane_chan_init 0x40 (ex_device_fail 3) (nn_zero ex_model) = Some (err, ane', nn') \<and>
     err < 0 \<and>
     (\<exists>new k. trace ane' = trace (ex_device_fail 3) @ new \<and> k \<le> ANE_TILE_COUNT \<and>
           acquired new = map Chan (present (tiles (model_anec ex_model)) 0 k) \<and>
           released new = map Chan (present (tiles (model_anec ex_model)) 0 k) \<and>
           mset (freed new) = mset (allocated new) \<and>
           bo_map (btsp_chan nn') = None)"
proof -
  obtain e a1 n1 where l: "chan_init_loop 0 (ex_device_fail 3) (nn_zero ex_model) = (e, a1, n1)"
    by (cases "chan_init_loop 0 (ex_device_fail 3) (nn_zero ex_model)") auto
  then have e: "e < 0" using ex_fail_loop by simp
  obtain a2 n2 where f: "ane_chan_free a1 n1 = (a2, n2)" by (cases "ane_chan_free a1 n1") auto
  have r: "ane_chan_init 0x40 (ex_device_fail 3) (nn_zero ex_model) = Some (e, a2, n2)"
    using l e f by (simp add: ane_chan_init_def)
  have wf: "length (tiles (model_anec ex_model)) = ANE_TILE_COUNT"
    by (simp add: ex_model_def ex_anec_def ANE_TILE_COUNT_def)
  from ane_chan_init_rollback [OF r wf] e
  obtain new k where "trace a2 = trace (ex_device_fail 3) @ new" "k \<le> ANE_TILE_COUNT"
    "acquired new = map Chan (present (tiles (model_anec ex_model)) 0 k)"
    "released new = map Chan (present (tiles (model_anec ex_model)) 0 k)"
    "mset (freed new) = mset (allocated new)" "bo_map (btsp_chan n2) = None"
    by blast
  then show ?thesis using r e by blast
qed

text \<open>
  Claim C4. After \<open>ane_chan_init\<close> on a zeroed channel set returns without a negative
  code, it returned 0; for every index below \<open>ANE_TILE_COUNT\<close> the channel is mapped if
  and only if its tile-size entry is non-zero, its size is the entry shifted left by 14
  bits, and a mapping has that many bytes; the bootstrap buffer is mapped with the
  task-descriptor size rounded up to a multiple of 16384; the trace shows the present
  channels and the bootstrap buffer mapped, each held handle allocated, and nothing freed.
\<close>

theorem ane_chan_init_allocates_present:
  assumes init: "ane_chan_init fifo_nid ane (nn_zero m) = Some (err, ane', nn')"
    and ok: "\<not> err < 0"
    and wf: "length (tiles (model_anec m)) = ANE_TILE_COUNT"
  shows "err = 0 \<and>
     (\<forall>i<ANE_TILE_COUNT.
        (bo_map (chans nn' ! i) \<noteq> None \<longleftrightarrow> tiles (model_anec m) ! i \<noteq> 0) \<and>
        bo_size (chans nn' ! i) = push_bit 14 (ucast (tiles (model_anec m) ! i)) \<and>
        (\<forall>mp. bo_map (chans nn' ! i) = Some mp \<longrightarrow>
           length mp = unat (tiles (model_anec m) ! i) * 16384)) \<and>
     (\<exists>mb. bo_map (btsp_chan nn') = Some mb \<and>
        length mb = ((unat (td_size (model_anec m)) + 16383) div 16384) * 16384) \<and>
     unat (bo_size (btsp_chan nn')) = ((unat (td_size (model_anec m)) + 16383) div 16384) * 16384 \<and>
     (\<exists>new. trace ane' = trace ane @ new \<and>
        acquired new = map Chan (present (tiles (model_anec m)) 0 ANE_TILE_COUNT) @ [Btsp] \<and>
        released new = [] \<and> freed new = [] \<and>
        mset (allocated new) =
          mset (map (\<lambda>i. (Chan i, bo_handle (chans nn' ! i)))
                 (present (tiles (model_anec m)) 0 ANE_TILE_COUNT))
          + {#(Btsp, bo_handle (btsp_chan nn'))#})"
proof -
  let ?T = "tiles (model_anec m)"
  let ?td = "td_size (model_anec m)"
  let ?bo0 = "bo_zero\<lparr>bo_size := tile_align ?td\<rparr>"
  from ane_chan_init_success [OF init ok]
  obtain ane1 nn1 bob m0 m0' mb mb' mb'' where
    loop: "chan_init_loop 0 ane (nn_zero m) = (0, ane1, nn1)"
    and bi: "ane_bo_init ane1 Btsp ?bo0 = (0, ane', bob)"
    and c0: "bo_map (chans nn1 ! 0) = Some m0"
    and cp0: "memcpy m0 0 (model_data m) 0 (unat (anec_size (model_anec m))) = Some m0'"
    and bm: "bo_map bob = Some mb"
    and cpb: "memcpy mb 0 (model_data m) 0 (unat ?td) = Some mb'"
    and sn: "set_nid mb' fifo_nid = Some mb''"
    and nn': "nn' = nn1\<lparr>chans := (chans nn1)[0 := (chans nn1 ! 0)\<lparr>bo_map := Some m0'\<rparr>],
                     btsp_chan := bob\<lparr>bo_map := Some mb''\<rparr>\<rparr>"
    and err: "err = 0"
    by blast
  from chan_init_loop_zero [OF loop]
  have post: "chan_init_post ?T 0 (trace ane) (chans (nn_zero m)) 0 (trace ane1) (chans nn1)"
    by simp
  from post [unfolded chan_init_post_def]
  obtain new1 k where len1: "length (chans nn1) = ANE_TILE_COUNT"
    and t1: "trace ane1 = trace ane @ new1"
    and k: "k = ANE_TILE_COUNT" and fz: "freed new1 = []"
    and a1: "acquired new1 = map Chan (present ?T 0 k)" and rl1: "released new1 = []"
    and h1: "mset (allocated new1) =
          mset (freed new1) + mset (map (\<lambda>i. (Chan i, bo_handle (chans nn1 ! i))) (present ?T 0 k))"
    and m1: "\<forall>i. 0 \<le> i \<and> i < k \<and> ?T ! i \<noteq> 0 \<longrightarrow>
           bo_size (chans nn1 ! i) = tile_shift (?T ! i) \<and>
           (\<exists>mp. bo_map (chans nn1 ! i) = Some mp \<and> length mp = unat (tile_shift (?T ! i)))"
    and m2: "\<forall>i. 0 \<le> i \<and> i < k \<and> ?T ! i = 0 \<longrightarrow> chans nn1 ! i = chans (nn_zero m) ! i"
    by auto
  have fresh: "bo_map ?bo0 = None" by simp
  from ane_bo_init_result [OF bi fresh]
  obtain newb where szb: "bo_size bob = tile_align ?td"
    and tb: "trace ane' = trace ane1 @ newb" and rlb: "released newb = []"
    and ab: "acquired newb = [Btsp]" and alb: "allocated newb = [(Btsp, bo_handle bob)]"
    and fb: "freed newb = []"
    and lb: "\<exists>mp. bo_map bob = Some mp \<and> length mp = unat (tile_align ?td)"
    by auto
  have lmb: "length mb = unat (tile_align ?td)" using lb bm by simp
  have lmb'': "length mb'' = length mb"
    using memcpy_zero [OF cpb] set_nid_result [OF sn] by simp
  have lm0': "length m0' = length m0" using memcpy_zero [OF cp0] by simp
  have pos64: "0 < ANE_TILE_COUNT" by (simp add: ANE_TILE_COUNT_def)
  have chan: "(bo_map (chans nn' ! i) \<noteq> None \<longleftrightarrow> ?T ! i \<noteq> 0) \<and>
        bo_size (chans nn' ! i) = push_bit 14 (ucast (?T ! i)) \<and>
        (\<forall>mp. bo_map (chans nn' ! i) = Some mp \<longrightarrow> length mp = unat (?T ! i) * 16384)"
    if i: "i < ANE_TILE_COUNT" for i
  proof (cases "?T ! i \<noteq> 0")
    case True
    with m1 i k obtain mp where s: "bo_size (chans nn1 ! i) = tile_shift (?T ! i)"
      and mp: "bo_map (chans nn1 ! i) = Some mp" "length mp = unat (tile_shift (?T ! i))"
      by auto
    show ?thesis
    proof (cases "i = 0")
      case True
      then show ?thesis using nn' len1 pos64 s mp c0 lm0' \<open>?T ! i \<noteq> 0\<close>
        by (simp add: tile_shift_unat) (simp add: tile_shift_def TILE_SHIFT_def)
    next
      case False
      then show ?thesis using nn' s mp \<open>?T ! i \<noteq> 0\<close>
        by (simp add: tile_shift_unat) (simp add: tile_shift_def TILE_SHIFT_def)
    qed
  next
    case False
    then have z: "chans nn1 ! i = bo_zero" using m2 i k by simp
    have "i \<noteq> 0"
    proof
      assume "i = 0"
      then have "bo_map (chans nn1 ! 0) = None" using z by simp
      then show False using c0 by simp
    qed
    then show ?thesis using nn' z False by simp
  qed
  define held where
    "held = map (\<lambda>i. (Chan i, bo_handle (chans nn1 ! i))) (present ?T 0 ANE_TILE_COUNT)"
  have hd: "map (\<lambda>i. (Chan i, bo_handle (chans nn' ! i))) (present ?T 0 ANE_TILE_COUNT) = held"
    unfolding held_def
  proof (rule map_cong [OF refl])
    fix i assume "i \<in> set (present ?T 0 ANE_TILE_COUNT)"
    show "(Chan i, bo_handle (chans nn' ! i)) = (Chan i, bo_handle (chans nn1 ! i))"
      using nn' len1 pos64 by (cases "i = 0") simp_all
  qed
  have h1': "mset (allocated new1) = mset held"
    using h1 fz k unfolding held_def by simp
  have t': "trace ane' = trace ane @ (new1 @ newb)" using t1 tb by simp
  have a': "acquired (new1 @ newb) = map Chan (present ?T 0 ANE_TILE_COUNT) @ [Btsp]"
    using a1 ab k by simp
  have r': "released (new1 @ newb) = []" using rl1 rlb by simp
  have f': "freed (new1 @ newb) = []" using fz fb by simp
  have h': "mset (allocated (new1 @ newb)) =
          mset (map (\<lambda>i. (Chan i, bo_handle (chans nn' ! i))) (present ?T 0 ANE_TILE_COUNT))
          + {#(Btsp, bo_handle (btsp_chan nn'))#}"
    unfolding hd using h1' alb nn' by simp
  have tr: "\<exists>new. trace ane' = trace ane @ new \<and>
        acquired new = map Chan (present ?T 0 ANE_TILE_COUNT) @ [Btsp] \<and>
        released new = [] \<and> freed new = [] \<and>
        mset (allocated new) =
          mset (map (\<lambda>i. (Chan i, bo_handle (chans nn' ! i))) (present ?T 0 ANE_TILE_COUNT))
          + {#(Btsp, bo_handle (btsp_chan nn'))#}"
    by (intro exI [of _ "new1 @ newb"] conjI) (fact t' a' r' f' h')+
  have b1: "\<exists>mb. bo_map (btsp_chan nn') = Some mb \<and>
        length mb = ((unat ?td + 16383) div 16384) * 16384"
    using nn' lmb lmb'' by (simp add: tile_align_unat)
  have b2: "unat (bo_size (btsp_chan nn')) = ((unat ?td + 16383) div 16384) * 16384"
    using nn' szb by (simp add: tile_align_unat)
  show ?thesis using err chan b1 b2 tr by blast
qed

lemma ex_ok_init:
  "\<exists>ane' nn'. ane_chan_init 0x40 ex_device (nn_zero ex_model) = Some (0, ane', nn')"
  by (simp add: ane_chan_init_def set_btsp_and_command_def set_nid_def memcpy_def tile_align_def
      TILE_SIZE_def Let_def bytes_of_word_def
      chan_init_loop.simps ane_bo_init_def bo_init_def bo_mmap_def bo_free_def
      ex_device_def ex_model_def ex_anec_def nn_zero_def bo_zero_def
      to_anec_def tile_size_def tile_shift_def TILE_SHIFT_def ANE_TILE_COUNT_def EINVAL_def emit_def
      nth_append
      del: upt.simps)

theorem ane_chan_init_allocates_present_witness:
  "\<exists>ane' nn'. ane_chan_init 0x40 ex_device (nn_zero ex_model) = Some (0, ane', nn') \<and>
     bo_map (chans nn' ! 4) \<noteq> None \<and> bo_map (chans nn' ! 5) \<noteq> None \<and>
     bo_map (chans nn' ! 6) = None \<and> bo_size (chans nn' ! 5) = 0x8000 \<and>
     unat (bo_size (btsp_chan nn')) = 16384"
proof -
  from ex_ok_init obtain ane' nn' where
    r: "ane_chan_init 0x40 ex_device (nn_zero ex_model) = Some (0, ane', nn')" by blast
  have wf: "length (tiles (model_anec ex_model)) = ANE_TILE_COUNT"
    by (simp add: ex_model_def ex_anec_def ANE_TILE_COUNT_def)
  have ok: "\<not> (0::int) < 0" by simp
  from ane_chan_init_allocates_present [OF r ok wf]
  have c: "\<forall>i<ANE_TILE_COUNT.
        (bo_map (chans nn' ! i) \<noteq> None \<longleftrightarrow> tiles (model_anec ex_model) ! i \<noteq> 0) \<and>
        bo_size (chans nn' ! i) = push_bit 14 (ucast (tiles (model_anec ex_model) ! i))"
    and b: "unat (bo_size (btsp_chan nn')) = ((unat (td_size (model_anec ex_model)) + 16383) div 16384) * 16384"
    by blast+
  have "bo_map (chans nn' ! 4) \<noteq> None" "bo_map (chans nn' ! 5) \<noteq> None"
    "bo_map (chans nn' ! 6) = None" "bo_size (chans nn' ! 5) = 0x8000"
    using c [rule_format, of 4] c [rule_format, of 5] c [rule_format, of 6]
    by (simp_all add: ANE_TILE_COUNT_def ex_model_def ex_anec_def)
  moreover have "unat (bo_size (btsp_chan nn')) = 16384"
    using b by (simp add: ex_model_def ex_anec_def)
  ultimately show ?thesis using r by blast
qed

subsection \<open>Bootstrap stamping\<close>

lemma stamp_bits:
  fixes w n :: u32
  defines "w' \<equiv> (w AND 0xf00ffff) OR push_bit 16 (n AND 0xff)"
  shows "(\<forall>i. 16 \<le> i \<and> i < 24 \<longrightarrow> bit w' i = bit n (i - 16)) \<and>
         (\<forall>i. i < 16 \<or> (24 \<le> i \<and> i < 28) \<longrightarrow> bit w' i = bit w i) \<and>
         (\<forall>i. 28 \<le> i \<longrightarrow> \<not> bit w' i)"
proof -
  have m: "(0xf00ffff :: u32) = mask 16 OR push_bit 24 (mask 4)" "(0xff :: u32) = mask 8"
    by (simp_all add: mask_eq_exp_minus_1)
  show ?thesis
    unfolding w'_def m
    by (auto simp add: bit_simps dest: bit_imp_le_length)
qed

lemma word_of_bytes_prefix:
  assumes "4 \<le> n" "n \<le> length s"
  shows "word_of_bytes (take n s @ rest) = word_of_bytes s"
  using assms by (simp add: word_of_bytes_def nth_append)

text \<open>
  Claim C2, as amended. After a successful \<open>ane_chan_init\<close> with \<open>td_size \<ge> 4\<close>, the first
  32-bit word of the bootstrap buffer has bits 16-23 equal to the low eight bits of the
  FIFO node identifier, bits 0-15 and 24-27 equal to the same bits of the first word of
  the payload, and bits 28-31 clear: the mask of \<open>set_nid\<close> is \<open>0x0f00ffff\<close>.
\<close>

theorem bootstrap_first_word_stamped:
  assumes init: "ane_chan_init fifo_nid ane (nn_zero m) = Some (err, ane', nn')"
    and ok: "\<not> err < 0"
    and td4: "4 \<le> unat (td_size (model_anec m))"
  shows "\<exists>mb. bo_map (btsp_chan nn') = Some mb \<and> 4 \<le> length mb \<and> 4 \<le> length (model_data m) \<and>
           word_of_bytes mb
             = (word_of_bytes (model_data m) AND 0xf00ffff) OR push_bit 16 (fifo_nid AND 0xff) \<and>
           (\<forall>i. 16 \<le> i \<and> i < 24 \<longrightarrow> bit (word_of_bytes mb) i = bit fifo_nid (i - 16)) \<and>
           (\<forall>i. i < 16 \<or> (24 \<le> i \<and> i < 28) \<longrightarrow>
              bit (word_of_bytes mb) i = bit (word_of_bytes (model_data m)) i) \<and>
           (\<forall>i. 28 \<le> i \<longrightarrow> \<not> bit (word_of_bytes mb) i)"
proof -
  let ?td = "unat (td_size (model_anec m))"
  from ane_chan_init_success [OF init ok]
  obtain nn1 bob m0' mb mb' mb'' where
    cpb: "memcpy mb 0 (model_data m) 0 ?td = Some mb'"
    and sn: "set_nid mb' fifo_nid = Some mb''"
    and nn': "nn' = nn1\<lparr>chans := (chans nn1)[0 := (chans nn1 ! 0)\<lparr>bo_map := Some m0'\<rparr>],
                     btsp_chan := bob\<lparr>bo_map := Some mb''\<rparr>\<rparr>"
    by blast
  from memcpy_zero [OF cpb]
  have le: "?td \<le> length (model_data m)" and mb': "mb' = take ?td (model_data m) @ drop ?td mb"
    by simp_all
  have w1: "word_of_bytes mb' = word_of_bytes (model_data m)"
    unfolding mb' using td4 le by (rule word_of_bytes_prefix)
  from set_nid_result [OF sn]
  have l4: "4 \<le> length mb'" and l: "length mb'' = length mb'"
    and w2: "word_of_bytes mb'' = (word_of_bytes mb' AND 0xf00ffff) OR push_bit 16 (fifo_nid AND 0xff)"
    by simp_all
  have w: "word_of_bytes mb''
             = (word_of_bytes (model_data m) AND 0xf00ffff) OR push_bit 16 (fifo_nid AND 0xff)"
    using w1 w2 by simp
  have d4: "4 \<le> length (model_data m)" using td4 le by simp
  have bm: "bo_map (btsp_chan nn') = Some mb''" using nn' by simp
  have l4': "4 \<le> length mb''" using l4 l by simp
  have bits: "(\<forall>i. 16 \<le> i \<and> i < 24 \<longrightarrow> bit (word_of_bytes mb'') i = bit fifo_nid (i - 16)) \<and>
           (\<forall>i. i < 16 \<or> (24 \<le> i \<and> i < 28) \<longrightarrow>
              bit (word_of_bytes mb'') i = bit (word_of_bytes (model_data m)) i) \<and>
           (\<forall>i. 28 \<le> i \<longrightarrow> \<not> bit (word_of_bytes mb'') i)"
    unfolding w by (rule stamp_bits)
  show ?thesis
    by (intro exI [of _ mb''] conjI) (fact bm l4' d4 w bits [THEN conjunct1]
        bits [THEN conjunct2, THEN conjunct1] bits [THEN conjunct2, THEN conjunct2])+
qed

theorem bootstrap_first_word_stamped_witness:
  "\<exists>ane' nn' mb. ane_chan_init 0x40 ex_device (nn_zero ex_model) = Some (0, ane', nn') \<and>
     bo_map (btsp_chan nn') = Some mb \<and>
     word_of_bytes mb = 0x04402211"
proof -
  from ex_ok_init obtain ane' nn' where
    r: "ane_chan_init 0x40 ex_device (nn_zero ex_model) = Some (0, ane', nn')" by blast
  have ok: "\<not> (0::int) < 0" by simp
  have td: "4 \<le> unat (td_size (model_anec ex_model))" by (simp add: ex_model_def ex_anec_def)
  from bootstrap_first_word_stamped [OF r ok td]
  obtain mb where "bo_map (btsp_chan nn') = Some mb"
    and "word_of_bytes mb
             = (word_of_bytes (model_data ex_model) AND 0xf00ffff) OR push_bit 16 ((0x40::u32) AND 0xff)"
    by blast
  moreover have "(word_of_bytes (model_data ex_model) AND 0xf00ffff) OR push_bit 16 ((0x40::u32) AND 0xff)
                 = 0x04402211"
    by (simp add: ex_model_def word_of_bytes_def)
  ultimately show ?thesis using r by auto
qed

text \<open>
  The claim as stated fails: bit 31 of the payload's first word is set in the example
  model and clear in the bootstrap buffer after init.
\<close>

theorem bootstrap_high_bits_counterexample:
  "\<exists>ane' nn' mb. ane_chan_init 0x40 ex_device (nn_zero ex_model) = Some (0, ane', nn') \<and>
     bo_map (btsp_chan nn') = Some mb \<and>
     bit (word_of_bytes (model_data ex_model)) 31 \<and> \<not> bit (word_of_bytes mb) 31"
  by (simp add: ane_chan_init_def set_btsp_and_command_def set_nid_def memcpy_def tile_align_def
      TILE_SIZE_def Let_def bytes_of_word_def word_of_bytes_def
      chan_init_loop.simps ane_bo_init_def bo_init_def bo_mmap_def bo_free_def
      ex_device_def ex_model_def ex_anec_def nn_zero_def bo_zero_def
      to_anec_def tile_size_def tile_shift_def TILE_SHIFT_def ANE_TILE_COUNT_def EINVAL_def emit_def
      nth_append
      del: upt.simps)

subsection \<open>Channel indices\<close>





section \<open>Model loading: proofs\<close>

lemma ane_zmalloc_Some:
  "malloc_res h sz = Some junk \<Longrightarrow> ane_zmalloc h sz = Some (replicate sz 0)"
  by (simp add: ane_zmalloc_def memset_def)

lemma ane_zmemalign_Some:
  "memalign_res h sz = Some junk \<Longrightarrow> ane_zmemalign h sz = Some (replicate sz 0)"
  by (simp add: ane_zmemalign_def memset_def)

lemma fread_Some:
  assumes "min sz (length (content fp)) \<le> length buf"
  shows "fread buf sz fp
         = Some (min sz (length (content fp)),
                 take sz (content fp) @ drop (min sz (length (content fp))) buf)"
  using assms by (auto simp add: fread_def memcpy_def Let_def min_def split: if_splits)

lemma ane_fread_Some:
  assumes "fopen_res h (n_fopen h) fname = Some fp"
    and "min (unat sz) (length (content fp)) \<le> length buf"
  shows "ane_fread h fname buf sz
         = Some (0, h\<lparr>n_fopen := Suc (n_fopen h)\<rparr>,
                 take (unat sz) (content fp) @ drop (min (unat sz) (length (content fp))) buf)"
  using assms by (simp add: ane_fread_def fopen_def fread_Some)

lemma nat_sint_long:
  fixes off :: u64
  assumes "0 \<le> sint off"
  shows "nat (sint off) = unat off"
proof -
  have "sint off < 2 ^ 64" using sint_lt [of off] by simp
  then have "take_bit 64 (sint off) = sint off" using assms by (simp add: take_bit_int_eq_self)
  then have "uint off = sint off" using uint_sint [of off] by simp
  then show ?thesis by (metis nat_uint_eq)
qed

lemma ane_pread_Some:
  assumes "fopen_res h (n_fopen h) fname = Some fp" and "0 \<le> sint off" and "seekable fp (unat off)"
    and "min (unat sz) (length (content fp) - unat off) \<le> length buf"
  shows "ane_pread h fname buf sz off
         = Some (0, h\<lparr>n_fopen := Suc (n_fopen h)\<rparr>,
                 take (unat sz) (drop (unat off) (content fp))
                 @ drop (min (unat sz) (length (content fp) - unat off)) buf)"
  using assms by (simp add: ane_pread_def fopen_def fseek_def fread_Some nat_sint_long)

lemma ane_pread_seek_fails:
  assumes "fopen_res h (n_fopen h) fname = Some fp" and "\<not> (0 \<le> sint off \<and> seekable fp (unat off))"
  shows "ane_pread h fname buf sz off = Some (- EINVAL, h\<lparr>n_fopen := Suc (n_fopen h)\<rparr>, buf)"
proof (cases "0 \<le> sint off")
  case True
  then show ?thesis using assms by (simp add: ane_pread_def fopen_def fseek_def nat_sint_long)
next
  case False
  then show ?thesis using assms by (simp add: ane_pread_def fopen_def fseek_def)
qed

lemma pad_replicate:
  "take n bs @ drop (min n (length bs)) (replicate n (0 :: byte))
   = take n bs @ replicate (n - length bs) 0"
  by (simp add: min_def)

lemma sint_ANEC_SIZE: "sint ANEC_SIZE = 4096" "unat ANEC_SIZE = 4096"
  by (simp_all add: ANEC_SIZE_def)

lemma ane_model_init_Some:
  assumes malloc: "malloc_res h (unat (sizeof_ane_model abi)) = Some junk1"
    and fits: "sizeof_anec abi \<le> sizeof_ane_model abi"
    and open1: "fopen_res h (n_fopen h) path = Some fp1"
    and a: "a = anec_of_bytes abi
                  (take (unat (sizeof_anec abi)) (content fp1)
                   @ replicate (unat (sizeof_anec abi) - length (content fp1)) 0)"
    and memalign: "memalign_res h (unat (anec_size a)) = Some junk2"
    and open2: "fopen_res h (Suc (n_fopen h)) path = Some fp2"
    and seek: "seekable fp2 4096"
  shows "ane_model_init abi h path
         = Some (h\<lparr>n_fopen := Suc (Suc (n_fopen h))\<rparr>,
                 Some \<lparr>model_anec = a,
                       model_data = take (unat (anec_size a)) (drop 4096 (content fp2))
                         @ replicate (unat (anec_size a) - (length (content fp2) - 4096)) 0\<rparr>)"
proof -
  let ?n = "unat (sizeof_anec abi)"
  let ?h1 = "h\<lparr>n_fopen := Suc (n_fopen h)\<rparr>"
  have le: "?n \<le> unat (sizeof_ane_model abi)" using fits by (simp add: word_le_nat_alt)
  have zm: "ane_zmalloc h (unat (sizeof_ane_model abi)) = Some (replicate (unat (sizeof_ane_model abi)) 0)"
    using malloc by (rule ane_zmalloc_Some)
  have tk: "take ?n (replicate (unat (sizeof_ane_model abi)) (0 :: byte)) = replicate ?n 0"
    using le by (simp add: min_def)
  have r1: "ane_fread h path (replicate ?n 0) (sizeof_anec abi)
            = Some (0, ?h1, take ?n (content fp1) @ replicate (?n - length (content fp1)) 0)"
    using ane_fread_Some [OF open1, of "sizeof_anec abi" "replicate ?n 0"]
    by (simp add: pad_replicate)
  have za: "ane_zmemalign ?h1 (unat (anec_size a)) = Some (replicate (unat (anec_size a)) 0)"
    using memalign by (intro ane_zmemalign_Some [of _ _ junk2]) simp
  have open2': "fopen_res ?h1 (n_fopen ?h1) path = Some fp2" using open2 by simp
  have sk: "0 \<le> sint ANEC_SIZE" "seekable fp2 (unat ANEC_SIZE)"
    using seek by (simp_all add: sint_ANEC_SIZE)
  have r2: "ane_pread ?h1 path (replicate (unat (anec_size a)) 0) (anec_size a) ANEC_SIZE
            = Some (0, h\<lparr>n_fopen := Suc (Suc (n_fopen h))\<rparr>,
                 take (unat (anec_size a)) (drop 4096 (content fp2))
                 @ replicate (unat (anec_size a) - (length (content fp2) - 4096)) 0)"
    using ane_pread_Some [OF open2' sk, of "anec_size a" "replicate (unat (anec_size a)) 0"]
      pad_replicate [of "unat (anec_size a)" "drop 4096 (content fp2)"]
    by (simp add: sint_ANEC_SIZE)
  show ?thesis
    unfolding ane_model_init_def zm option.case tk r1 prod.case a [symmetric] Let_def
    using za r2 by simp
qed

lemma ane_model_init_nonnull:
  assumes ok: "ane_model_init abi h path = Some (h', Some m)"
    and fits: "sizeof_anec abi \<le> sizeof_ane_model abi"
  shows "\<exists>junk1 fp1 junk2 fp2.
           malloc_res h (unat (sizeof_ane_model abi)) = Some junk1 \<and>
           fopen_res h (n_fopen h) path = Some fp1 \<and>
           memalign_res h (unat (anec_size (anec_of_bytes abi
                  (take (unat (sizeof_anec abi)) (content fp1)
                   @ replicate (unat (sizeof_anec abi) - length (content fp1)) 0)))) = Some junk2 \<and>
           fopen_res h (Suc (n_fopen h)) path = Some fp2 \<and>
           seekable fp2 4096"
proof -
  let ?n = "unat (sizeof_anec abi)"
  let ?h1 = "h\<lparr>n_fopen := Suc (n_fopen h)\<rparr>"
  have le: "?n \<le> unat (sizeof_ane_model abi)" using fits by (simp add: word_le_nat_alt)
  have tk: "take ?n (replicate (unat (sizeof_ane_model abi)) (0 :: byte)) = replicate ?n 0"
    using le by (simp add: min_def)
  obtain junk1 where j1: "malloc_res h (unat (sizeof_ane_model abi)) = Some junk1"
    using ok by (cases "malloc_res h (unat (sizeof_ane_model abi))")
      (simp_all add: ane_model_init_def ane_zmalloc_def)
  have zm: "ane_zmalloc h (unat (sizeof_ane_model abi)) = Some (replicate (unat (sizeof_ane_model abi)) 0)"
    using j1 by (rule ane_zmalloc_Some)
  obtain fp1 where o1: "fopen_res h (n_fopen h) path = Some fp1"
    using ok unfolding ane_model_init_def zm option.case tk
    by (cases "fopen_res h (n_fopen h) path") (simp_all add: ane_fread_def fopen_def EINVAL_def)
  define a where "a = anec_of_bytes abi
                  (take ?n (content fp1) @ replicate (?n - length (content fp1)) 0)"
  have r1: "ane_fread h path (replicate ?n 0) (sizeof_anec abi)
            = Some (0, ?h1, take ?n (content fp1) @ replicate (?n - length (content fp1)) 0)"
    using ane_fread_Some [OF o1, of "sizeof_anec abi" "replicate ?n 0"]
    by (simp add: pad_replicate)
  have ok1: "(case ane_zmemalign ?h1 (unat (anec_size a)) of
                    None \<Rightarrow> Some (?h1, None)
                  | Some buf \<Rightarrow>
                      (case ane_pread ?h1 path buf (anec_size a) ANEC_SIZE of
                         None \<Rightarrow> None
                       | Some (err, h2, buf') \<Rightarrow>
                           if err < 0 then Some (h2, None)
                           else Some (h2, Some \<lparr>model_anec = a, model_data = buf'\<rparr>)))
             = Some (h', Some m)"
    using ok unfolding ane_model_init_def zm option.case tk r1 prod.case a_def [symmetric] Let_def
    by simp
  obtain junk2 where j2: "memalign_res h (unat (anec_size a)) = Some junk2"
    using ok1 by (cases "memalign_res h (unat (anec_size a))") (simp_all add: ane_zmemalign_def)
  have za: "ane_zmemalign ?h1 (unat (anec_size a)) = Some (replicate (unat (anec_size a)) 0)"
    using j2 by (intro ane_zmemalign_Some [of _ _ junk2]) simp
  have ok2: "(case ane_pread ?h1 path (replicate (unat (anec_size a)) 0) (anec_size a) ANEC_SIZE of
                         None \<Rightarrow> None
                       | Some (err, h2, buf') \<Rightarrow>
                           if err < 0 then Some (h2, None)
                           else Some (h2, Some \<lparr>model_anec = a, model_data = buf'\<rparr>))
             = Some (h', Some m)"
    using ok1 unfolding za by simp
  obtain fp2 where o2: "fopen_res h (Suc (n_fopen h)) path = Some fp2"
    using ok2 by (cases "fopen_res h (Suc (n_fopen h)) path")
      (simp_all add: ane_pread_def fopen_def EINVAL_def)
  have o2': "fopen_res ?h1 (n_fopen ?h1) path = Some fp2" using o2 by simp
  have sk: "seekable fp2 4096"
  proof (rule ccontr)
    assume "\<not> seekable fp2 4096"
    then have "\<not> (0 \<le> sint ANEC_SIZE \<and> seekable fp2 (unat ANEC_SIZE))"
      by (simp add: sint_ANEC_SIZE)
    from ane_pread_seek_fails [OF o2' this] show False
      using ok2 by (simp add: EINVAL_def)
  qed
  show ?thesis using j1 o1 j2 o2 sk unfolding a_def by blast
qed

text \<open>
  Claim C7. When the stream can be opened, \<open>ane_fread\<close> returns 0 whatever number of bytes
  the stream delivers; when moreover the offset is not negative as a \<^verbatim>\<open>long\<close> and the
  stream can be positioned at it, so does \<open>ane_pread\<close>. \<open>ane_model_init\<close> returns a non-null
  model exactly when the container can be allocated, the file can be opened twice, the
  payload buffer of the size decoded from the header (the bytes read, followed by zeros)
  can be allocated, and the second stream can be positioned at offset 0x1000: the number
  of bytes the two reads deliver plays no part.
\<close>

theorem short_read_is_not_fatal:
  "(fopen_res h (n_fopen h) fname = Some fp \<and> unat sz \<le> length buf \<longrightarrow>
      (\<exists>h' buf'. ane_fread h fname buf sz = Some (0, h', buf'))) \<and>
   (fopen_res h (n_fopen h) fname = Some fp \<and> 0 \<le> sint off \<and> seekable fp (unat off) \<and>
    unat sz \<le> length buf \<longrightarrow>
      (\<exists>h' buf'. ane_pread h fname buf sz off = Some (0, h', buf'))) \<and>
   (sizeof_anec abi \<le> sizeof_ane_model abi \<longrightarrow>
      ((\<exists>h' m. ane_model_init abi h path = Some (h', Some m)) \<longleftrightarrow>
       (\<exists>fph fpp.
          malloc_res h (unat (sizeof_ane_model abi)) \<noteq> None \<and>
          fopen_res h (n_fopen h) path = Some fph \<and>
          memalign_res h (unat (anec_size (anec_of_bytes abi
                  (take (unat (sizeof_anec abi)) (content fph)
                   @ replicate (unat (sizeof_anec abi) - length (content fph)) 0)))) \<noteq> None \<and>
          fopen_res h (Suc (n_fopen h)) path = Some fpp \<and> seekable fpp 4096)))"
proof (intro conjI impI)
  assume a: "fopen_res h (n_fopen h) fname = Some fp \<and> unat sz \<le> length buf"
  then have "min (unat sz) (length (content fp)) \<le> length buf" by auto
  with a show "\<exists>h' buf'. ane_fread h fname buf sz = Some (0, h', buf')"
    by (simp add: ane_fread_Some)
next
  assume a: "fopen_res h (n_fopen h) fname = Some fp \<and> 0 \<le> sint off \<and> seekable fp (unat off) \<and>
    unat sz \<le> length buf"
  then have "min (unat sz) (length (content fp) - unat off) \<le> length buf" by auto
  with a show "\<exists>h' buf'. ane_pread h fname buf sz off = Some (0, h', buf')"
    by (simp add: ane_pread_Some)
next
  assume fits: "sizeof_anec abi \<le> sizeof_ane_model abi"
  let ?hdr = "\<lambda>fph. anec_of_bytes abi
                  (take (unat (sizeof_anec abi)) (content fph)
                   @ replicate (unat (sizeof_anec abi) - length (content fph)) 0)"
  show "(\<exists>h' m. ane_model_init abi h path = Some (h', Some m)) \<longleftrightarrow>
       (\<exists>fph fpp.
          malloc_res h (unat (sizeof_ane_model abi)) \<noteq> None \<and>
          fopen_res h (n_fopen h) path = Some fph \<and>
          memalign_res h (unat (anec_size (?hdr fph))) \<noteq> None \<and>
          fopen_res h (Suc (n_fopen h)) path = Some fpp \<and> seekable fpp 4096)"
  proof
    assume "\<exists>h' m. ane_model_init abi h path = Some (h', Some m)"
    then obtain h' m where ok: "ane_model_init abi h path = Some (h', Some m)" by blast
    from ane_model_init_nonnull [OF ok fits] show "\<exists>fph fpp.
          malloc_res h (unat (sizeof_ane_model abi)) \<noteq> None \<and>
          fopen_res h (n_fopen h) path = Some fph \<and>
          memalign_res h (unat (anec_size (?hdr fph))) \<noteq> None \<and>
          fopen_res h (Suc (n_fopen h)) path = Some fpp \<and> seekable fpp 4096"
      by fastforce
  next
    assume "\<exists>fph fpp.
          malloc_res h (unat (sizeof_ane_model abi)) \<noteq> None \<and>
          fopen_res h (n_fopen h) path = Some fph \<and>
          memalign_res h (unat (anec_size (?hdr fph))) \<noteq> None \<and>
          fopen_res h (Suc (n_fopen h)) path = Some fpp \<and> seekable fpp 4096"
    then obtain fph fpp junk1 junk2 where j1: "malloc_res h (unat (sizeof_ane_model abi)) = Some junk1"
      and o1: "fopen_res h (n_fopen h) path = Some fph"
      and j2: "memalign_res h (unat (anec_size (?hdr fph))) = Some junk2"
      and o2: "fopen_res h (Suc (n_fopen h)) path = Some fpp" and s: "seekable fpp 4096"
      by auto
    show "\<exists>h' m. ane_model_init abi h path = Some (h', Some m)"
      using ane_model_init_Some [OF j1 fits o1 refl j2 o2 s] by simp
  qed
qed

theorem short_read_is_not_fatal_witness:
  "(\<exists>h' buf'. ane_fread (ex_host [8, 4, 1]) ''model.anec'' (replicate 16 0) 16 = Some (0, h', buf')) \<and>
   (\<exists>h' buf'. ane_pread (ex_host [8, 4, 1]) ''model.anec'' (replicate 8 0) 8 0x1000 = Some (0, h', buf')) \<and>
   (\<exists>h' m. ane_model_init ex_abi (ex_host [8, 4, 1]) ''model.anec'' = Some (h', Some m))"
  using short_read_is_not_fatal [where h = "ex_host [8, 4, 1]" and fname = "''model.anec''"
      and fp = "\<lparr>content = [8, 4, 1], seekable = (\<lambda>off. True)\<rparr>" and sz = 16 and buf = "replicate 16 0"]
    short_read_is_not_fatal [where h = "ex_host [8, 4, 1]" and fname = "''model.anec''"
      and fp = "\<lparr>content = [8, 4, 1], seekable = (\<lambda>off. True)\<rparr>" and sz = 8 and buf = "replicate 8 0"
      and off = "0x1000"]
    short_read_is_not_fatal [where h = "ex_host [8, 4, 1]" and path = "''model.anec''"
      and abi = ex_abi]
  by (simp add: ex_host_def ex_abi_def)

text \<open>
  The load of a file that can be opened and positioned, but is shorter than the header,
  still returns null when the payload buffer cannot be allocated: here the eight bytes
  read give the size \<open>2 ^ 64 - 1\<close>.
\<close>

theorem short_read_alloc_failure_counterexample:
  "(\<exists>fp. fopen_res (ex_host_bounded [0xFF, 0xFF, 0xFF, 0xFF, 0xFF, 0xFF, 0xFF, 0xFF]) 0 ''model.anec'' = Some fp \<and>
         fseek fp (sint ANEC_SIZE) \<noteq> None \<and> length (content fp) < unat (sizeof_anec ex_abi_wide)) \<and>
   (\<exists>h' buf'. ane_fread (ex_host_bounded [0xFF, 0xFF, 0xFF, 0xFF, 0xFF, 0xFF, 0xFF, 0xFF]) ''model.anec''
        (replicate 16 0) (sizeof_anec ex_abi_wide) = Some (0, h', buf')) \<and>
   (\<exists>h'. ane_model_init ex_abi_wide (ex_host_bounded [0xFF, 0xFF, 0xFF, 0xFF, 0xFF, 0xFF, 0xFF, 0xFF])
        ''model.anec'' = Some (h', None))"
  by (simp add: ane_model_init_def ane_zmalloc_def ane_zmemalign_def ane_fread_def fopen_def fread_def
      fseek_def memcpy_def memset_def ex_host_bounded_def ex_host_def ex_abi_wide_def ex_abi_def
      ANEC_SIZE_def Let_def)

text \<open>
  Claim C10. Whenever a load returns a model, the descriptor is decoded from the bytes
  read from the first stream followed by zero bytes up to the size of the header, and the
  payload buffer has the descriptor's size and holds the bytes read from offset 0x1000 of
  the second stream followed by zero bytes, whatever the allocator's blocks contained.
\<close>

theorem load_zero_fills_unread_bytes:
  assumes ok: "ane_model_init abi h path = Some (h', Some m)"
    and fits: "sizeof_anec abi \<le> sizeof_ane_model abi"
  shows "\<exists>fph fpp. fopen_res h (n_fopen h) path = Some fph \<and>
           fopen_res h (Suc (n_fopen h)) path = Some fpp \<and>
           model_anec m = anec_of_bytes abi
              (take (unat (sizeof_anec abi)) (content fph)
               @ replicate (unat (sizeof_anec abi) - length (content fph)) 0) \<and>
           length (model_data m) = unat (anec_size (model_anec m)) \<and>
           (\<forall>i<length (model_data m).
              (i < length (content fpp) - 4096 \<longrightarrow> model_data m ! i = content fpp ! (4096 + i)) \<and>
              (length (content fpp) - 4096 \<le> i \<longrightarrow> model_data m ! i = 0))"
proof -
  from ane_model_init_nonnull [OF ok fits]
  obtain junk1 fph junk2 fpp where j1: "malloc_res h (unat (sizeof_ane_model abi)) = Some junk1"
    and open1: "fopen_res h (n_fopen h) path = Some fph"
    and j2: "memalign_res h (unat (anec_size (anec_of_bytes abi
                  (take (unat (sizeof_anec abi)) (content fph)
                   @ replicate (unat (sizeof_anec abi) - length (content fph)) 0)))) = Some junk2"
    and open2: "fopen_res h (Suc (n_fopen h)) path = Some fpp"
    and seek: "seekable fpp 4096" by blast
  define hdr where "hdr = anec_of_bytes abi
                  (take (unat (sizeof_anec abi)) (content fph)
                   @ replicate (unat (sizeof_anec abi) - length (content fph)) 0)"
  define sz where "sz = unat (anec_size hdr)"
  define payload where "payload = take sz (drop 4096 (content fpp))
                         @ replicate (sz - (length (content fpp) - 4096)) 0"
  have j2': "memalign_res h (unat (anec_size hdr)) = Some junk2" using j2 by (simp add: hdr_def)
  have "ane_model_init abi h path
         = Some (h\<lparr>n_fopen := Suc (Suc (n_fopen h))\<rparr>, Some \<lparr>model_anec = hdr, model_data = payload\<rparr>)"
    using ane_model_init_Some [OF j1 fits open1 hdr_def j2' open2 seek]
    by (simp add: payload_def sz_def)
  then have m: "m = \<lparr>model_anec = hdr, model_data = payload\<rparr>" using ok by simp
  have len: "length payload = sz" by (auto simp add: payload_def min_def)
  have pt: "(i < length (content fpp) - 4096 \<longrightarrow> payload ! i = content fpp ! (4096 + i)) \<and>
            (length (content fpp) - 4096 \<le> i \<longrightarrow> payload ! i = 0)" if "i < length payload" for i
  proof (intro conjI impI)
    assume "i < length (content fpp) - 4096"
    then show "payload ! i = content fpp ! (4096 + i)"
      using that len by (simp add: payload_def nth_append)
  next
    assume "length (content fpp) - 4096 \<le> i"
    then show "payload ! i = 0"
      using that len by (simp add: payload_def nth_append min_def)
  qed
  show ?thesis
    using open1 open2 m len pt by (simp add: hdr_def sz_def)
qed

theorem load_zero_fills_unread_bytes_witness:
  "\<exists>h' m. ane_model_init ex_abi (ex_host [8, 4, 1]) ''model.anec'' = Some (h', Some m) \<and>
     anec_size (model_anec m) = 8 \<and> td_size (model_anec m) = 4 \<and> model_data m = replicate 8 0"
proof -
  let ?fp = "\<lparr>content = [8, 4, 1], seekable = (\<lambda>off. True)\<rparr>"
  have "\<exists>h' m. ane_model_init ex_abi (ex_host [8, 4, 1]) ''model.anec'' = Some (h', Some m)"
    using ane_model_init_Some [where h = "ex_host [8, 4, 1]" and path = "''model.anec''"
      and abi = ex_abi and ?fp1.0 = ?fp and ?fp2.0 = ?fp, OF _ _ _ refl]
    by (simp add: ex_host_def ex_abi_def)
  then obtain h' m where r: "ane_model_init ex_abi (ex_host [8, 4, 1]) ''model.anec'' = Some (h', Some m)"
    by blast
  have fits: "sizeof_anec ex_abi \<le> sizeof_ane_model ex_abi" by (simp add: ex_abi_def)
  from load_zero_fills_unread_bytes [OF r fits]
  obtain fph fpp where o1: "fopen_res (ex_host [8, 4, 1]) (n_fopen (ex_host [8, 4, 1])) ''model.anec'' = Some fph"
    and o2: "fopen_res (ex_host [8, 4, 1]) (Suc (n_fopen (ex_host [8, 4, 1]))) ''model.anec'' = Some fpp"
    and hd: "model_anec m = anec_of_bytes ex_abi
              (take (unat (sizeof_anec ex_abi)) (content fph)
               @ replicate (unat (sizeof_anec ex_abi) - length (content fph)) 0)"
    and l: "length (model_data m) = unat (anec_size (model_anec m))"
    and z: "\<forall>i<length (model_data m).
              (i < length (content fpp) - 4096 \<longrightarrow> model_data m ! i = content fpp ! (4096 + i)) \<and>
              (length (content fpp) - 4096 \<le> i \<longrightarrow> model_data m ! i = 0)"
    by blast
  have fph: "fph = ?fp" and fpp: "fpp = ?fp" using o1 o2 by (simp_all add: ex_host_def)
  have a: "anec_size (model_anec m) = 8" "td_size (model_anec m) = 4"
    using hd fph by (simp_all add: ex_abi_def)
  have "model_data m = replicate 8 0"
  proof (rule nth_equalityI)
    show "length (model_data m) = length (replicate 8 (0 :: byte))" using l a by simp
  next
    fix i assume "i < length (model_data m)"
    then show "model_data m ! i = replicate 8 0 ! i" using z l a fpp by simp
  qed
  then show ?thesis using r a by blast
qed

end
